theory Spec2Isabelle
  imports Complex_Main
begin

section \<open>Numbers, errors and library functions\<close>

text \<open>
  The program computes on Python floats. They are idealised here as exact rationals:
  every arithmetic operation and comparison of the source is the exact one on \<open>rat\<close>,
  so rounding error, infinities and NaN of binary floating point are outside the model.
  The decimal literals of the source (\<open>0.1\<close>, \<open>0.05\<close>, ...) are the exact fractions.
\<close>

type_synonym box = "rat \<times> rat \<times> rat \<times> rat"

datatype error = ValueError string | ZeroDivisionError

text \<open>Python's true division \<open>a / b\<close>, which raises on a zero divisor.\<close>

definition py_div :: "rat \<Rightarrow> rat \<Rightarrow> error + rat" where
  "py_div a b = (if b = 0 then Inl ZeroDivisionError else Inr (a / b))"

text \<open>
  Python's \<open>round(q, n)\<close>: the nearest multiple of \<open>10 ^ (- n)\<close>, a tie going to the
  even one.
\<close>

definition round_half_even :: "rat \<Rightarrow> int" where
  "round_half_even q =
     (let f = \<lfloor>q\<rfloor>; d = q - of_int f
      in if d < 1 / 2 then f
         else if 1 / 2 < d then f + 1
         else if even f then f else f + 1)"

definition py_round :: "rat \<Rightarrow> nat \<Rightarrow> rat" where
  "py_round q n = of_int (round_half_even (q * 10 ^ n)) / 10 ^ n"

section \<open>Geometry primitives\<close>

fun intersects :: "box \<Rightarrow> box \<Rightarrow> bool" where
  "intersects (ax, ay, aw, ah) (bx, by, bw, bh) =
     (\<not> (ax + aw \<le> bx \<or> bx + bw \<le> ax \<or> ay + ah \<le> by \<or> by + bh \<le> ay))"

text \<open>The dict returned by \<open>calculate_overlap_percentage\<close>, one field per key.\<close>

record metrics =
  overlap_area :: rat
  percentage_of_a :: rat
  percentage_of_b :: rat
  percentage_of_total :: rat

text \<open>
  The expression \<open>(overlap_area / area * 100) if area > 0 else 0\<close>, which the source
  writes three times, once per area.
\<close>

definition percent_if_positive :: "rat \<Rightarrow> rat \<Rightarrow> error + rat" where
  "percent_if_positive ov area =
     (if 0 < area
      then (case py_div ov area of Inl e \<Rightarrow> Inl e | Inr q \<Rightarrow> Inr (q * 100))
      else Inr 0)"

fun calculate_overlap_percentage :: "box \<Rightarrow> box \<Rightarrow> error + metrics" where
  "calculate_overlap_percentage (ax, ay, aw, ah) (bx, by, bw, bh) =
     (let x_left = max ax bx;
          y_bottom = max ay by;
          x_right = min (ax + aw) (bx + bw);
          y_top = min (ay + ah) (by + bh)
      in if x_right < x_left \<or> y_top < y_bottom
         then Inr \<lparr>overlap_area = 0, percentage_of_a = 0, percentage_of_b = 0,
                   percentage_of_total = 0\<rparr>
         else
           (let ov = (x_right - x_left) * (y_top - y_bottom);
                area_a = aw * ah;
                area_b = bw * bh;
                total_area = area_a + area_b - ov
            in case percent_if_positive ov area_a of Inl e \<Rightarrow> Inl e | Inr pa \<Rightarrow>
               (case percent_if_positive ov area_b of Inl e \<Rightarrow> Inl e | Inr pb \<Rightarrow>
               (case percent_if_positive ov total_area of Inl e \<Rightarrow> Inl e | Inr pt \<Rightarrow>
                  Inr \<lparr>overlap_area = py_round ov 2,
                       percentage_of_a = py_round pa 2,
                       percentage_of_b = py_round pb 2,
                       percentage_of_total = py_round pt 2\<rparr>))))"

section \<open>Strings\<close>

text \<open>
  A Python string is a sequence of Unicode code points; it is modelled as a list of natural
  numbers. \<open>codes\<close> gives the code points of an ASCII literal of the source. The keys of
  the trim dict, the position labels and the error message are fixed ASCII literals and stay
  of type \<open>string\<close>.
\<close>

type_synonym pystr = "nat list"

definition codes :: "string \<Rightarrow> pystr" where
  "codes s = map of_char s"

text \<open>
  \<open>str.upper\<close>. It is exact wherever the upper case of a character is a single ASCII
  character: the letters a to z go to A to Z, the dotless i (U+0131) goes to I, the long s
  (U+017F) goes to S, and every other ASCII character stays. The upper case of any other
  character is not an ASCII character or is longer than one character; the model leaves
  such a character as it is, which makes no difference to the only use of \<open>upper\<close>, the
  test whether the result is one of the ASCII watermark letters.
\<close>

definition upper_char :: "nat \<Rightarrow> pystr" where
  "upper_char n =
     (if 97 \<le> n \<and> n \<le> 122 then [n - 32]
      else if n = 0x131 then [0x49]
      else if n = 0x17F then [0x53]
      else [n])"

definition upper :: "pystr \<Rightarrow> pystr" where
  "upper s = concat (map upper_char s)"

text \<open>
  \<open>str.isdigit\<close> and \<open>str.isalpha\<close> read the Unicode character database, which is
  not part of the repository. The functions that call them take the two tables as a
  parameter, and what is proved about them holds for every pair of tables.
\<close>

record unicode_tables =
  isdigit :: "pystr \<Rightarrow> bool"
  isalpha :: "pystr \<Rightarrow> bool"

text \<open>
  The two tables on text of code points below 256, where they are as follows; they are
  used for the examples, whose text is ASCII.
\<close>

definition is_digit_char :: "nat \<Rightarrow> bool" where
  "is_digit_char n = ((48 \<le> n \<and> n \<le> 57) \<or> n = 178 \<or> n = 179 \<or> n = 185)"

definition is_alpha_char :: "nat \<Rightarrow> bool" where
  "is_alpha_char n =
     ((65 \<le> n \<and> n \<le> 90) \<or> (97 \<le> n \<and> n \<le> 122) \<or> n = 170 \<or> n = 181 \<or> n = 186
      \<or> (192 \<le> n \<and> n \<le> 214) \<or> (216 \<le> n \<and> n \<le> 246) \<or> (248 \<le> n \<and> n \<le> 255))"

definition latin1_tables :: unicode_tables where
  "latin1_tables =
     \<lparr>isdigit = (\<lambda>s. s \<noteq> [] \<and> list_all is_digit_char s),
      isalpha = (\<lambda>s. s \<noteq> [] \<and> list_all is_alpha_char s)\<rparr>"

text \<open>
  \<open>ch in set(list(cs))\<close>: the string \<open>ch\<close> is one of the one-character strings
  made from \<open>cs\<close>.
\<close>

definition in_chars :: "pystr \<Rightarrow> pystr \<Rightarrow> bool" where
  "in_chars ch cs = (case ch of [c] \<Rightarrow> c \<in> set cs | _ \<Rightarrow> False)"

section \<open>Watermark classifier\<close>

text \<open>
  A glyph record of the extractor. The keys \<open>page\<close> and \<open>fontSize\<close> are read with
  \<open>dict.get\<close>, so they may be absent (\<open>None\<close>); an absent and a null page are the same
  to the code. The keys \<open>char\<close> and \<open>bbox\<close> are always there in a well-formed record.
\<close>

record glyph =
  g_char :: pystr
  g_page :: "int option"
  g_bbox :: box
  g_fontSize :: "rat option"

text \<open>\<open>glyph.get('fontSize', 0)\<close>\<close>

definition get_fontSize :: "glyph \<Rightarrow> rat" where
  "get_fontSize g = (case g_fontSize g of None \<Rightarrow> 0 | Some v \<Rightarrow> v)"

definition default_watermark_patterns :: "pystr list" where
  "default_watermark_patterns =
     map codes [''UNCORRECTED'', ''CORRECTED'', ''PROOF'', ''DRAFT'',
                ''CONFIDENTIAL'', ''PRELIMINARY'', ''WATERMARK'']"

definition watermark_chars :: "pystr" where
  "watermark_chars = codes ''UNCORRECTEDPROFDTALIMWY''"

definition is_watermark :: "glyph \<Rightarrow> rat \<Rightarrow> pystr list option \<Rightarrow> bool" where
  "is_watermark glyph watermark_font_size watermark_patterns =
     (let patterns = (case watermark_patterns of
                        None \<Rightarrow> default_watermark_patterns | Some ps \<Rightarrow> ps)
      in if watermark_font_size \<le> get_fontSize glyph then True
         else
           (let ch = g_char glyph
            in if 20 < get_fontSize glyph
               then (if length ch = 1 \<and> in_chars (upper ch) watermark_chars
                     then True else False)
               else False))"

section \<open>Whitespace trimmer\<close>

definition punct_small :: "pystr" where
  "punct_small = codes '',.;:'' @ [0x60, 0x27, 0x22]"

definition thin_stems :: "pystr" where
  "thin_stems = codes ''il|1t''"

definition hooks :: "pystr" where
  "hooks = codes ''fj''"

definition brackets :: "pystr" where
  "brackets = codes ''()[]{}''"

text \<open>The two non-ASCII operators are the multiplication and the division sign.\<close>

definition math_ops :: "pystr" where
  "math_ops = codes ''+-='' @ [0xD7, 0xF7] @ codes ''/*'' @ [0x5C]"

text \<open>The four curly quotes, then the two straight ones.\<close>

definition quotes :: "pystr" where
  "quotes = [0x201C, 0x201D, 0x2018, 0x2019, 0x22, 0x27]"

definition diacritics :: "pystr" where
  "diacritics = [0x2DC, 0x5E, 0x7E, 0x2C7, 0x2D8, 0xA8, 0x2DA, 0x2D9, 0x2DB, 0x2DD]"

text \<open>The dict of the four sides, as a map from the key to the fraction.\<close>

definition sides :: "rat \<Rightarrow> rat \<Rightarrow> (string \<rightharpoonup> rat)" where
  "sides lr tb = [''left'' \<mapsto> lr, ''right'' \<mapsto> lr, ''top'' \<mapsto> tb, ''bottom'' \<mapsto> tb]"

definition get_char_trim_percents ::
  "unicode_tables \<Rightarrow> pystr \<Rightarrow> rat \<Rightarrow> (string \<rightharpoonup> rat)"
where
  "get_char_trim_percents u ch scale =
     (if in_chars ch punct_small then sides (25 / 100 * scale) (25 / 100 * scale)
      else if in_chars ch thin_stems then sides (12 / 100 * scale) (18 / 100 * scale)
      else if in_chars ch hooks then sides (10 / 100 * scale) (12 / 100 * scale)
      else if in_chars ch brackets \<or> in_chars ch quotes
        then sides (8 / 100 * scale) (10 / 100 * scale)
      else if in_chars ch math_ops then sides (10 / 100 * scale) (10 / 100 * scale)
      else if in_chars ch diacritics then sides (20 / 100 * scale) (20 / 100 * scale)
      else if isdigit u ch then sides (6 / 100 * scale) (8 / 100 * scale)
      else if isalpha u ch then sides (7 / 100 * scale) (10 / 100 * scale)
      else sides (5 / 100 * scale) (5 / 100 * scale))"

text \<open>\<open>percents.get(key, 0.0)\<close>\<close>

definition get_percent :: "(string \<rightharpoonup> rat) \<Rightarrow> string \<Rightarrow> rat" where
  "get_percent percents k = (case percents k of None \<Rightarrow> 0 | Some v \<Rightarrow> v)"

fun apply_trim :: "box \<Rightarrow> (string \<rightharpoonup> rat) \<Rightarrow> box" where
  "apply_trim (x, y, w, h) percents =
     (if w \<le> 0 \<or> h \<le> 0 then (x, y, w, h)
      else
        (let lt = get_percent percents ''left'';
             rt = get_percent percents ''right'';
             tp = get_percent percents ''top'';
             bt = get_percent percents ''bottom'';
             dx_left = w * lt;
             dx_right = w * rt;
             dy_top = h * tp;
             dy_bottom = h * bt;
             new_x = x + dx_left;
             new_y = y + dy_bottom;
             new_w = max (1 / 10) (w - dx_left - dx_right);
             new_h = max (1 / 10) (h - dy_top - dy_bottom)
         in (new_x, new_y, new_w, new_h)))"

section \<open>Page grouper\<close>

text \<open>The glyph dict that the grouper builds: \<open>char\<close>, \<open>x\<close>, \<open>y\<close>, \<open>width\<close>, \<open>height\<close>.\<close>

record page_glyph =
  pg_char :: pystr
  pg_x :: rat
  pg_y :: rat
  pg_width :: rat
  pg_height :: rat

text \<open>
  A dict from page number to glyph list, as an association list in insertion order
  (the order in which a Python dict is iterated).
\<close>

type_synonym by_page = "(int \<times> page_glyph list) list"

text \<open>\<open>by_page.setdefault(page, []).append(glyph_dict)\<close>\<close>

fun setdefault_append :: "by_page \<Rightarrow> int \<Rightarrow> page_glyph \<Rightarrow> by_page" where
  "setdefault_append [] k v = [(k, [v])]"
| "setdefault_append ((k', vs) # rest) k v =
     (if k' = k then (k', vs @ [v]) # rest else (k', vs) # setdefault_append rest k v)"

text \<open>
  The loop over the glyph list; its state is \<open>by_page\<close>, \<open>filtered_count\<close> and
  \<open>trimmed_count\<close>. A glyph with no page number raises, which ends the loop.
\<close>

fun group_loop ::
  "unicode_tables \<Rightarrow> glyph list \<Rightarrow> bool \<Rightarrow> bool \<Rightarrow> rat \<Rightarrow> by_page \<times> nat \<times> nat
     \<Rightarrow> error + by_page \<times> nat \<times> nat"
where
  "group_loop u [] filter_watermarks enable_char_trim trim_scale st = Inr st"
| "group_loop u (g # gs) filter_watermarks enable_char_trim trim_scale
       (by_page, filtered_count, trimmed_count) =
     (case g_page g of
        None \<Rightarrow> Inl (ValueError ''Glyph record missing page number'')
      | Some page \<Rightarrow>
          if filter_watermarks \<and> is_watermark g 40 None
          then group_loop u gs filter_watermarks enable_char_trim trim_scale
                 (by_page, filtered_count + 1, trimmed_count)
          else
            (let bbox = (if enable_char_trim
                         then apply_trim (g_bbox g)
                                (get_char_trim_percents u (g_char g) trim_scale)
                         else g_bbox g);
                 trimmed_count' = (if enable_char_trim then trimmed_count + 1 else trimmed_count);
                 glyph_dict = (case bbox of (bx, by, bw, bh) \<Rightarrow>
                   \<lparr>pg_char = g_char g, pg_x = bx, pg_y = by, pg_width = bw, pg_height = bh\<rparr>)
             in group_loop u gs filter_watermarks enable_char_trim trim_scale
                  (setdefault_append by_page page glyph_dict, filtered_count, trimmed_count')))"

text \<open>The two counters are only printed; the function returns \<open>by_page\<close>.\<close>

definition group_glyphs_by_page ::
  "unicode_tables \<Rightarrow> glyph list \<Rightarrow> bool \<Rightarrow> bool \<Rightarrow> rat \<Rightarrow> error + by_page"
where
  "group_glyphs_by_page u glyphs_list filter_watermarks enable_char_trim trim_scale =
     (case group_loop u glyphs_list filter_watermarks enable_char_trim trim_scale ([], 0, 0) of
        Inl e \<Rightarrow> Inl e
      | Inr (by_page, filtered_count, trimmed_count) \<Rightarrow> Inr by_page)"

section \<open>Overlap finder\<close>

text \<open>An entry of the \<open>overlaps\<close> list, one field per key of the dict.\<close>

record overlap_record =
  ov_page :: int
  ov_a :: box
  ov_b :: box
  ov_char_a :: pystr
  ov_char_b :: pystr
  ov_percentage_of_union :: rat

text \<open>
  The variables of \<open>find_overlaps_by_page\<close>. \<open>page_rects\<close> is the set of the page being
  scanned, kept as a list without duplicates in the order of first insertion (the order in
  which Python lists a set is not fixed; nothing below depends on it).
\<close>

record finder_state =
  overlaps :: "overlap_record list"
  highlights_by_page :: "int \<rightharpoonup> box list"
  total :: nat
  filtered_count :: nat
  page_rects :: "box list"

definition set_add :: "box \<Rightarrow> box list \<Rightarrow> box list" where
  "set_add r rects = (if r \<in> set rects then rects else rects @ [r])"

definition box_of :: "page_glyph \<Rightarrow> box" where
  "box_of g = (pg_x g, pg_y g, pg_width g, pg_height g)"

text \<open>The body of the inner loop, for the glyphs \<open>gi\<close> and \<open>gj\<close>.\<close>

definition pair_step ::
  "rat \<Rightarrow> int \<Rightarrow> page_glyph \<Rightarrow> page_glyph \<Rightarrow> finder_state \<Rightarrow> error + finder_state"
where
  "pair_step overlap_percentage_threshold page_num gi gj s =
     (let box_i = box_of gi; box_j = box_of gj
      in if intersects box_i box_j
         then
           (case calculate_overlap_percentage box_i box_j of
              Inl e \<Rightarrow> Inl e
            | Inr overlap_metrics \<Rightarrow>
                (let percentage_of_union = percentage_of_total overlap_metrics
                 in if overlap_percentage_threshold < percentage_of_union
                    then Inr (s\<lparr>total := total s + 1,
                                overlaps := overlaps s @
                                  [\<lparr>ov_page = page_num, ov_a = box_i, ov_b = box_j,
                                    ov_char_a = pg_char gi, ov_char_b = pg_char gj,
                                    ov_percentage_of_union = percentage_of_union\<rparr>],
                                page_rects := set_add box_j (set_add box_i (page_rects s))\<rparr>)
                    else Inr (s\<lparr>filtered_count := filtered_count s + 1\<rparr>)))
         else Inr s)"

text \<open>\<open>for j in range(i + 1, n)\<close>: the glyphs after \<open>gi\<close>, in order.\<close>

fun inner_loop ::
  "rat \<Rightarrow> int \<Rightarrow> page_glyph \<Rightarrow> page_glyph list \<Rightarrow> finder_state \<Rightarrow> error + finder_state"
where
  "inner_loop thr page_num gi [] s = Inr s"
| "inner_loop thr page_num gi (gj # rest) s =
     (case pair_step thr page_num gi gj s of
        Inl e \<Rightarrow> Inl e
      | Inr s' \<Rightarrow> inner_loop thr page_num gi rest s')"

text \<open>\<open>for i in range(n)\<close>: each glyph of the page against the glyphs after it.\<close>

fun outer_loop ::
  "rat \<Rightarrow> int \<Rightarrow> page_glyph list \<Rightarrow> finder_state \<Rightarrow> error + finder_state"
where
  "outer_loop thr page_num [] s = Inr s"
| "outer_loop thr page_num (gi # rest) s =
     (case inner_loop thr page_num gi rest s of
        Inl e \<Rightarrow> Inl e
      | Inr s' \<Rightarrow> outer_loop thr page_num rest s')"

text \<open>\<open>for page_num, glyphs in glyphs_by_page.items()\<close>\<close>

fun pages_loop :: "rat \<Rightarrow> by_page \<Rightarrow> finder_state \<Rightarrow> error + finder_state" where
  "pages_loop thr [] s = Inr s"
| "pages_loop thr ((page_num, glyphs) # rest) s =
     (case outer_loop thr page_num glyphs (s\<lparr>page_rects := []\<rparr>) of
        Inl e \<Rightarrow> Inl e
      | Inr s' \<Rightarrow>
          pages_loop thr rest
            (if page_rects s' \<noteq> []
             then s'\<lparr>highlights_by_page := (highlights_by_page s')(page_num \<mapsto> page_rects s')\<rparr>
             else s'))"

definition find_overlaps_by_page ::
  "by_page \<Rightarrow> rat \<Rightarrow> error + overlap_record list \<times> (int \<rightharpoonup> box list) \<times> nat \<times> nat"
where
  "find_overlaps_by_page glyphs_by_page overlap_percentage_threshold =
     (case pages_loop overlap_percentage_threshold glyphs_by_page
             \<lparr>overlaps = [], highlights_by_page = Map.empty, total = 0,
              filtered_count = 0, page_rects = []\<rparr> of
        Inl e \<Rightarrow> Inl e
      | Inr s \<Rightarrow> Inr (overlaps s, highlights_by_page s, total s, filtered_count s))"

section \<open>Position labeler\<close>

definition vertical_label :: "rat \<Rightarrow> rat \<Rightarrow> string" where
  "vertical_label y page_height =
     (let v_third = page_height / 3
      in if y < v_third then ''bottom''
         else if y < 2 * v_third then ''middle''
         else ''top'')"

definition horizontal_label :: "rat \<Rightarrow> rat \<Rightarrow> string" where
  "horizontal_label x page_width =
     (let h_third = page_width / 3
      in if x < h_third then ''left''
         else if x < 2 * h_third then ''center''
         else ''right'')"

definition get_position_label :: "rat \<Rightarrow> rat \<Rightarrow> rat \<Rightarrow> rat \<Rightarrow> string" where
  "get_position_label x y page_width page_height =
     vertical_label y page_height @ ''-'' @ horizontal_label x page_width"

section \<open>Statistics engine\<close>

text \<open>
  A \<open>Counter\<close>, as an association list in the order of first insertion;
  \<open>char_counts[c] += 1\<close> on it.
\<close>

type_synonym counter = "(pystr \<times> nat) list"

fun counter_incr :: "counter \<Rightarrow> pystr \<Rightarrow> counter" where
  "counter_incr [] c = [(c, 1)]"
| "counter_incr ((c', n) # rest) c =
     (if c' = c then (c', n + 1) # rest else (c', n) # counter_incr rest c)"

fun count_loop :: "overlap_record list \<Rightarrow> counter \<Rightarrow> counter" where
  "count_loop [] char_counts = char_counts"
| "count_loop (overlap # rest) char_counts =
     count_loop rest (counter_incr (counter_incr char_counts (ov_char_a overlap))
                        (ov_char_b overlap))"

text \<open>
  \<open>Counter.most_common()\<close>: the entries by descending count, entries of equal count in
  the order of first insertion (a stable sort).
\<close>

definition most_common :: "counter \<Rightarrow> counter" where
  "most_common char_counts = sort_key (\<lambda>(c, n). - int n) char_counts"

record char_stat =
  character :: pystr
  overlap_count :: nat
  percentage :: rat

fun stats_loop :: "counter \<Rightarrow> nat \<Rightarrow> error + char_stat list" where
  "stats_loop [] total_occurrences = Inr []"
| "stats_loop ((c, n) # rest) total_occurrences =
     (case py_div (of_nat n) (of_nat total_occurrences) of
        Inl e \<Rightarrow> Inl e
      | Inr q \<Rightarrow>
          (case stats_loop rest total_occurrences of
             Inl e \<Rightarrow> Inl e
           | Inr char_stats \<Rightarrow>
               Inr (\<lparr>character = c, overlap_count = n, percentage = py_round (q * 100) 2\<rparr>
                    # char_stats)))"

text \<open>
  The returned dict; the key \<open>total_character_occurrences\<close> is absent when there is no
  overlap.
\<close>

record statistics =
  character_stats :: "char_stat list"
  total_unique_chars :: nat
  total_character_occurrences :: "nat option"

definition calculate_character_statistics :: "overlap_record list \<Rightarrow> error + statistics" where
  "calculate_character_statistics ovs =
     (let char_counts = count_loop ovs []
      in if char_counts = []
         then Inr \<lparr>character_stats = [], total_unique_chars = 0,
                   total_character_occurrences = None\<rparr>
         else
           (let total_occurrences = sum_list (map snd char_counts)
            in case stats_loop (most_common char_counts) total_occurrences of
                 Inl e \<Rightarrow> Inl e
               | Inr char_stats \<Rightarrow>
                   Inr \<lparr>character_stats = char_stats,
                        total_unique_chars = length char_counts,
                        total_character_occurrences = Some total_occurrences\<rparr>))"

section \<open>Closed forms of the finder's loops\<close>

text \<open>
  The functions of this section are not part of the program. They say, without loops and
  without the error branch, what the loops of \<open>find_overlaps_by_page\<close> compute; the
  lemmas below prove that the loops compute exactly that, and the theorems about the
  finder are derived from it.
\<close>

definition metrics_of :: "box \<Rightarrow> box \<Rightarrow> metrics" where
  "metrics_of a b =
     (case calculate_overlap_percentage a b of
        Inr m \<Rightarrow> m
      | Inl e \<Rightarrow> \<lparr>overlap_area = 0, percentage_of_a = 0, percentage_of_b = 0,
                   percentage_of_total = 0\<rparr>)"

fun pairs :: "'a list \<Rightarrow> ('a \<times> 'a) list" where
  "pairs [] = []"
| "pairs (x # xs) = map (Pair x) xs @ pairs xs"

definition qualifies :: "rat \<Rightarrow> page_glyph \<times> page_glyph \<Rightarrow> bool" where
  "qualifies thr pr =
     (intersects (box_of (fst pr)) (box_of (snd pr))
      \<and> thr < percentage_of_total (metrics_of (box_of (fst pr)) (box_of (snd pr))))"

definition rejected :: "rat \<Rightarrow> page_glyph \<times> page_glyph \<Rightarrow> bool" where
  "rejected thr pr =
     (intersects (box_of (fst pr)) (box_of (snd pr))
      \<and> \<not> thr < percentage_of_total (metrics_of (box_of (fst pr)) (box_of (snd pr))))"

definition mk_record :: "int \<Rightarrow> page_glyph \<times> page_glyph \<Rightarrow> overlap_record" where
  "mk_record p pr =
     \<lparr>ov_page = p, ov_a = box_of (fst pr), ov_b = box_of (snd pr),
      ov_char_a = pg_char (fst pr), ov_char_b = pg_char (snd pr),
      ov_percentage_of_union =
        percentage_of_total (metrics_of (box_of (fst pr)) (box_of (snd pr)))\<rparr>"

definition kept :: "rat \<Rightarrow> int \<Rightarrow> (page_glyph \<times> page_glyph) list \<Rightarrow> overlap_record list" where
  "kept thr p ps = map (mk_record p) (filter (qualifies thr) ps)"

definition add_rects :: "overlap_record list \<Rightarrow> box list \<Rightarrow> box list" where
  "add_rects recs rects = fold (\<lambda>r acc. set_add (ov_b r) (set_add (ov_a r) acc)) recs rects"

definition scan ::
  "rat \<Rightarrow> int \<Rightarrow> (page_glyph \<times> page_glyph) list \<Rightarrow> finder_state \<Rightarrow> finder_state"
where
  "scan thr p ps s =
     s\<lparr>overlaps := overlaps s @ kept thr p ps,
       total := total s + length (kept thr p ps),
       filtered_count := filtered_count s + length (filter (rejected thr) ps),
       page_rects := add_rects (kept thr p ps) (page_rects s)\<rparr>"

definition page_step :: "rat \<Rightarrow> int \<times> page_glyph list \<Rightarrow> finder_state \<Rightarrow> finder_state" where
  "page_step thr pg s =
     (let s' = scan thr (fst pg) (pairs (snd pg)) (s\<lparr>page_rects := []\<rparr>)
      in if page_rects s' \<noteq> []
         then s'\<lparr>highlights_by_page := (highlights_by_page s')(fst pg \<mapsto> page_rects s')\<rparr>
         else s')"

definition all_kept :: "rat \<Rightarrow> by_page \<Rightarrow> overlap_record list" where
  "all_kept thr gbp = concat (map (\<lambda>pg. kept thr (fst pg) (pairs (snd pg))) gbp)"

section \<open>Closed forms of the statistics\<close>

text \<open>
  Again not part of the program: the count that a \<open>Counter\<close> holds for a character
  (0 when the character is no key), and the table entry made from a counter entry.
\<close>

definition count_of :: "counter \<Rightarrow> pystr \<Rightarrow> nat" where
  "count_of cs c = (case map_of cs c of None \<Rightarrow> 0 | Some n \<Rightarrow> n)"

definition stat_of :: "nat \<Rightarrow> pystr \<times> nat \<Rightarrow> char_stat" where
  "stat_of total_occurrences e =
     \<lparr>character = fst e, overlap_count = snd e,
      percentage = py_round (of_nat (snd e) / of_nat total_occurrences * 100) 2\<rparr>"

section \<open>Rounding and division never fail where the code guards them\<close>

lemma py_round_2_Ints: "py_round q 2 * 100 \<in> \<int>"
  by (simp add: py_round_def)

lemma round_half_even_close: "\<bar>of_int (round_half_even q) - q\<bar> \<le> 1 / 2"
proof -
  have "of_int \<lfloor>q\<rfloor> \<le> q" "q < of_int \<lfloor>q\<rfloor> + 1" by linarith+
  then show ?thesis
    by (auto simp: round_half_even_def Let_def)
qed

lemma py_round_2_close: "\<bar>py_round q 2 - q\<bar> \<le> 1 / 200"
proof -
  have "\<bar>of_int (round_half_even (q * 100)) - q * 100\<bar> \<le> 1 / 2"
    by (rule round_half_even_close)
  then show ?thesis
    by (simp add: py_round_def field_simps abs_le_iff)
qed

lemma round_half_even_0: "round_half_even 0 = 0"
  by (simp add: round_half_even_def)

lemma py_round_0: "py_round 0 n = 0"
  by (simp add: py_round_def round_half_even_0)

lemma percent_if_positive_Inr:
  "percent_if_positive ov area = Inr (if 0 < area then ov / area * 100 else 0)"
  by (simp add: percent_if_positive_def py_div_def)

text \<open>
  C7: for every pair of boxes, also boxes of zero area, \<open>calculate_overlap_percentage\<close>
  returns metrics (no division by zero is reached); a percentage whose denominator area
  is zero is 0; and each returned percentage is a multiple of 0.01.
\<close>

theorem calculate_overlap_percentage_total:
  "\<exists>m. calculate_overlap_percentage (ax, ay, aw, ah) (bx, by, bw, bh) = Inr m
     \<and> (aw * ah = 0 \<longrightarrow> percentage_of_a m = 0)
     \<and> (bw * bh = 0 \<longrightarrow> percentage_of_b m = 0)
     \<and> (aw * ah + bw * bh
          - (min (ax + aw) (bx + bw) - max ax bx) * (min (ay + ah) (by + bh) - max ay by) = 0
        \<longrightarrow> percentage_of_total m = 0)
     \<and> percentage_of_a m * 100 \<in> \<int>
     \<and> percentage_of_b m * 100 \<in> \<int>
     \<and> percentage_of_total m * 100 \<in> \<int>"
proof (cases "min (ax + aw) (bx + bw) < max ax bx \<or> min (ay + ah) (by + bh) < max ay by")
  case True
  then show ?thesis by simp
next
  case False
  then show ?thesis
    by (simp add: percent_if_positive_Inr Let_def py_round_0 py_round_2_Ints)
qed

theorem calculate_overlap_percentage_total_witness:
  "\<exists>m. calculate_overlap_percentage (0, 0, 0, 5) (0, 0, 0, 0) = Inr m
     \<and> percentage_of_a m = 0 \<and> percentage_of_b m = 0 \<and> percentage_of_total m = 0"
  using calculate_overlap_percentage_total [of 0 0 0 5 0 0 0 0] by auto

section \<open>The watermark rule\<close>

lemma in_chars_iff: "in_chars ch cs \<longleftrightarrow> ch \<in> (\<lambda>c. [c]) ` set cs"
  by (auto simp: in_chars_def split: list.splits)

lemma watermark_chars_set:
  "set watermark_chars = {85, 78, 67, 79, 82, 69, 84, 68, 80, 70, 65, 76, 73, 77, 87, 89}"
  by (auto simp: watermark_chars_def codes_def)

lemma upper_lower_case: "97 \<le> c \<and> c \<le> 122 \<Longrightarrow> upper [c] = [c - 32]"
  by (simp add: upper_def upper_char_def)

lemma upper_upper_case: "65 \<le> c \<and> c \<le> 90 \<Longrightarrow> upper [c] = [c]"
  by (simp add: upper_def upper_char_def)

lemma upper_in_watermark_chars:
  "upper [c] \<in> (\<lambda>c. [c]) ` set watermark_chars \<longleftrightarrow>
     c \<in> {85, 78, 67, 79, 82, 69, 84, 68, 80, 70, 65, 76, 73, 77, 87, 89,
                  117, 110, 99, 111, 114, 101, 116, 100, 112, 102, 97, 108, 105, 109, 119, 121,
                  305}"
proof -
  have "upper [c] = upper_char c" by (simp add: upper_def)
  then show ?thesis
    unfolding watermark_chars_set upper_char_def
    by (simp only: split: if_split) (auto; presburger?)
qed

lemma is_watermark_iff:
  "is_watermark g 40 pats =
     (40 \<le> get_fontSize g \<or>
      (20 < get_fontSize g \<and> length (g_char g) = 1 \<and>
       upper (g_char g) \<in> (\<lambda>c. [c]) ` set watermark_chars))"
  by (simp add: is_watermark_def Let_def in_chars_iff)

lemma is_watermark_letters:
  assumes "get_fontSize g < 40"
  shows "is_watermark g 40 pats =
     (20 < get_fontSize g \<and>
      (\<exists>c. g_char g = [c] \<and>
           c \<in> {85, 78, 67, 79, 82, 69, 84, 68, 80, 70, 65, 76, 73, 77, 87, 89,
                  117, 110, 99, 111, 114, 101, 116, 100, 112, 102, 97, 108, 105, 109, 119, 121,
                  305}))"
proof (cases "\<exists>c. g_char g = [c]")
  case True
  then obtain c where c: "g_char g = [c]" by blast
  from assms show ?thesis
    unfolding is_watermark_iff c by (simp only: upper_in_watermark_chars) auto
next
  case False
  then have "length (g_char g) \<noteq> 1" by (cases "g_char g") auto
  with assms False show ?thesis
    unfolding is_watermark_iff by auto
qed

text \<open>
  C4: with the default threshold 40, a glyph is a watermark exactly when its font size is
  at least 40, or its font size is above 20 and its text is a single character whose upper
  case is one of the watermark letters. The watermark letters are
  U, N, C, O, R, E, T, D, P, F, A, L, I, M, W, Y (by code point below), and the match
  ignores case: below font size 40 a glyph is a watermark exactly when its font size is
  above 20 and its text is one of these letters, in upper or lower case, or the dotless i,
  whose upper case is I. So a glyph of font size 41 is a watermark whatever its character,
  and the glyph \<open>a\<close> (code point 97) of font size 15 is not.
\<close>

theorem is_watermark_rule:
  "is_watermark g 40 pats =
     (40 \<le> get_fontSize g \<or>
      (20 < get_fontSize g \<and> length (g_char g) = 1 \<and>
       upper (g_char g) \<in> (\<lambda>c. [c]) ` set watermark_chars))
   \<and> (get_fontSize g < 40 \<longrightarrow>
        is_watermark g 40 pats =
          (20 < get_fontSize g \<and>
           (\<exists>c. g_char g = [c] \<and>
                c \<in> {85, 78, 67, 79, 82, 69, 84, 68, 80, 70, 65, 76, 73, 77, 87, 89,
                  117, 110, 99, 111, 114, 101, 116, 100, 112, 102, 97, 108, 105, 109, 119, 121,
                  305})))
   \<and> set watermark_chars = {85, 78, 67, 79, 82, 69, 84, 68, 80, 70, 65, 76, 73, 77, 87, 89}
   \<and> (\<forall>c. 97 \<le> c \<and> c \<le> 122 \<longrightarrow> upper [c] = [c - 32])
   \<and> (\<forall>c. 65 \<le> c \<and> c \<le> 90 \<longrightarrow> upper [c] = [c])
   \<and> (get_fontSize g = 41 \<longrightarrow> is_watermark g 40 pats)
   \<and> (get_fontSize g = 15 \<and> g_char g = [97] \<longrightarrow> \<not> is_watermark g 40 pats)"
proof -
  have 1: "get_fontSize g < 40 \<longrightarrow>
        is_watermark g 40 pats =
          (20 < get_fontSize g \<and>
           (\<exists>c. g_char g = [c] \<and>
                c \<in> {85, 78, 67, 79, 82, 69, 84, 68, 80, 70, 65, 76, 73, 77, 87, 89,
                  117, 110, 99, 111, 114, 101, 116, 100, 112, 102, 97, 108, 105, 109, 119, 121,
                  305}))"
    using is_watermark_letters [of g pats] by blast
  have 3: "\<forall>c. 97 \<le> c \<and> c \<le> 122 \<longrightarrow> upper [c] = [c - 32]"
    using upper_lower_case by blast
  have 4: "\<forall>c. 65 \<le> c \<and> c \<le> 90 \<longrightarrow> upper [c] = [c]"
    using upper_upper_case by blast
  have 5: "get_fontSize g = 41 \<longrightarrow> is_watermark g 40 pats"
    by (simp add: is_watermark_iff)
  have 6: "get_fontSize g = 15 \<and> g_char g = [97] \<longrightarrow> \<not> is_watermark g 40 pats"
    by (simp add: is_watermark_iff)
  show ?thesis
    by (intro conjI is_watermark_iff 1 watermark_chars_set 3 4 5 6)
qed

theorem is_watermark_rule_witness:
  "is_watermark 
     \<lparr>g_char = [80], g_page = Some 1, g_bbox = (0, 0, 1, 1), g_fontSize = Some 25\<rparr> 40 None
   \<and> is_watermark 
     \<lparr>g_char = [112], g_page = Some 1, g_bbox = (0, 0, 1, 1), g_fontSize = Some 25\<rparr> 40 None
   \<and> is_watermark 
     \<lparr>g_char = [305], g_page = Some 1, g_bbox = (0, 0, 1, 1), g_fontSize = Some 25\<rparr> 40 None
   \<and> \<not> is_watermark 
     \<lparr>g_char = [98], g_page = Some 1, g_bbox = (0, 0, 1, 1), g_fontSize = Some 25\<rparr> 40 None
   \<and> \<not> is_watermark 
     \<lparr>g_char = [80, 80], g_page = Some 1, g_bbox = (0, 0, 1, 1), g_fontSize = Some 25\<rparr> 40 None
   \<and> is_watermark 
     \<lparr>g_char = [120], g_page = Some 1, g_bbox = (0, 0, 1, 1), g_fontSize = Some 41\<rparr> 40 None
   \<and> \<not> is_watermark 
     \<lparr>g_char = [97], g_page = Some 1, g_bbox = (0, 0, 1, 1), g_fontSize = Some 15\<rparr> 40 None"
proof -
  note r = is_watermark_rule [THEN conjunct2, THEN conjunct1, THEN mp]
  have P: "is_watermark 
     \<lparr>g_char = [80], g_page = Some 1, g_bbox = (0, 0, 1, 1), g_fontSize = Some 25\<rparr> 40 None"
    using r [of "\<lparr>g_char = [80], g_page = Some 1, g_bbox = (0, 0, 1, 1), g_fontSize = Some 25\<rparr>" None] by (simp add: get_fontSize_def)
  have p: "is_watermark 
     \<lparr>g_char = [112], g_page = Some 1, g_bbox = (0, 0, 1, 1), g_fontSize = Some 25\<rparr> 40 None"
    using r [of "\<lparr>g_char = [112], g_page = Some 1, g_bbox = (0, 0, 1, 1), g_fontSize = Some 25\<rparr>" None] by (simp add: get_fontSize_def)
  have d: "is_watermark 
     \<lparr>g_char = [305], g_page = Some 1, g_bbox = (0, 0, 1, 1), g_fontSize = Some 25\<rparr> 40 None"
    using r [of "\<lparr>g_char = [305], g_page = Some 1, g_bbox = (0, 0, 1, 1), g_fontSize = Some 25\<rparr>" None] by (simp add: get_fontSize_def)
  have b: "\<not> is_watermark 
     \<lparr>g_char = [98], g_page = Some 1, g_bbox = (0, 0, 1, 1), g_fontSize = Some 25\<rparr> 40 None"
    using r [of "\<lparr>g_char = [98], g_page = Some 1, g_bbox = (0, 0, 1, 1), g_fontSize = Some 25\<rparr>" None] by (simp add: get_fontSize_def)
  have PP: "\<not> is_watermark 
     \<lparr>g_char = [80, 80], g_page = Some 1, g_bbox = (0, 0, 1, 1), g_fontSize = Some 25\<rparr> 40 None"
    using r [of "\<lparr>g_char = [80, 80], g_page = Some 1, g_bbox = (0, 0, 1, 1), g_fontSize = Some 25\<rparr>" None] by (simp add: get_fontSize_def)
  have x: "is_watermark 
     \<lparr>g_char = [120], g_page = Some 1, g_bbox = (0, 0, 1, 1), g_fontSize = Some 41\<rparr> 40 None"
    using is_watermark_rule [of "\<lparr>g_char = [120], g_page = Some 1, g_bbox = (0, 0, 1, 1), g_fontSize = Some 41\<rparr>" None] by (simp add: get_fontSize_def)
  have a: "\<not> is_watermark 
     \<lparr>g_char = [97], g_page = Some 1, g_bbox = (0, 0, 1, 1), g_fontSize = Some 15\<rparr> 40 None"
    using is_watermark_rule [of "\<lparr>g_char = [97], g_page = Some 1, g_bbox = (0, 0, 1, 1), g_fontSize = Some 15\<rparr>" None] by (simp add: get_fontSize_def)
  show ?thesis
    by (intro conjI P p d b PP x a)
qed

section \<open>The position labels\<close>

lemma vertical_label_cases:
  "(y < ph / 3 \<longrightarrow> vertical_label y ph = ''bottom'')
   \<and> (ph / 3 \<le> y \<and> y < 2 * ph / 3 \<longrightarrow> vertical_label y ph = ''middle'')
   \<and> (ph / 3 \<le> y \<and> 2 * ph / 3 \<le> y \<longrightarrow> vertical_label y ph = ''top'')"
  unfolding vertical_label_def Let_def by auto

lemma vertical_label_boundary:
  "0 < ph \<Longrightarrow>
     vertical_label (ph / 3) ph = ''middle'' \<and> vertical_label (2 * ph / 3) ph = ''top''"
  unfolding vertical_label_def Let_def by auto

lemma horizontal_label_cases:
  "(x < pw / 3 \<longrightarrow> horizontal_label x pw = ''left'')
   \<and> (pw / 3 \<le> x \<and> x < 2 * pw / 3 \<longrightarrow> horizontal_label x pw = ''center'')
   \<and> (pw / 3 \<le> x \<and> 2 * pw / 3 \<le> x \<longrightarrow> horizontal_label x pw = ''right'')"
  unfolding horizontal_label_def Let_def by auto

lemma horizontal_label_boundary:
  "0 < pw \<Longrightarrow>
     horizontal_label (pw / 3) pw = ''center'' \<and> horizontal_label (2 * pw / 3) pw = ''right''"
  unfolding horizontal_label_def Let_def by auto

lemma label_examples:
  "get_position_label 10 10 300 300 = ''bottom-left''"
  "get_position_label 290 290 300 300 = ''top-right''"
  "get_position_label 150 150 300 300 = ''middle-center''"
  unfolding get_position_label_def vertical_label_def horizontal_label_def Let_def
  by simp_all

text \<open>
  C9: the label is the vertical third, a hyphen and the horizontal third. A coordinate
  strictly below a third of the page is in the lowest bucket, one from there up to strictly
  below two thirds is in the middle bucket, and any other is in the highest; so on a page of
  positive size the value exactly at a boundary is in the higher bucket. On a 300 by 300 page
  the points (10,10), (290,290) and (150,150) are labelled bottom-left, top-right and
  middle-center.
\<close>

theorem get_position_label_half_open:
  "get_position_label x y pw ph = vertical_label y ph @ ''-'' @ horizontal_label x pw
   \<and> (y < ph / 3 \<longrightarrow> vertical_label y ph = ''bottom'')
   \<and> (ph / 3 \<le> y \<and> y < 2 * ph / 3 \<longrightarrow> vertical_label y ph = ''middle'')
   \<and> (ph / 3 \<le> y \<and> 2 * ph / 3 \<le> y \<longrightarrow> vertical_label y ph = ''top'')
   \<and> (x < pw / 3 \<longrightarrow> horizontal_label x pw = ''left'')
   \<and> (pw / 3 \<le> x \<and> x < 2 * pw / 3 \<longrightarrow> horizontal_label x pw = ''center'')
   \<and> (pw / 3 \<le> x \<and> 2 * pw / 3 \<le> x \<longrightarrow> horizontal_label x pw = ''right'')
   \<and> (0 < ph \<longrightarrow> vertical_label (ph / 3) ph = ''middle''
                 \<and> vertical_label (2 * ph / 3) ph = ''top'')
   \<and> (0 < pw \<longrightarrow> horizontal_label (pw / 3) pw = ''center''
                 \<and> horizontal_label (2 * pw / 3) pw = ''right'')
   \<and> get_position_label 10 10 300 300 = ''bottom-left''
   \<and> get_position_label 290 290 300 300 = ''top-right''
   \<and> get_position_label 150 150 300 300 = ''middle-center''"
proof -
  have d: "get_position_label x y pw ph = vertical_label y ph @ ''-'' @ horizontal_label x pw"
    by (simp only: get_position_label_def)
  show ?thesis
    using d vertical_label_cases [of y ph] horizontal_label_cases [of x pw]
      vertical_label_boundary [of ph] horizontal_label_boundary [of pw] label_examples
    by blast
qed

theorem get_position_label_half_open_witness:
  "vertical_label 10 300 = ''bottom'' \<and> horizontal_label 10 300 = ''left''
   \<and> vertical_label 150 300 = ''middle'' \<and> horizontal_label 150 300 = ''center''
   \<and> vertical_label 290 300 = ''top'' \<and> horizontal_label 290 300 = ''right''
   \<and> (vertical_label (300 / 3) 300 = ''middle'' \<and> vertical_label (2 * 300 / 3) 300 = ''top'')
   \<and> (horizontal_label (300 / 3) 300 = ''center''
        \<and> horizontal_label (2 * 300 / 3) 300 = ''right'')"
proof -
  have h1: "(10::rat) < 300 / 3" by simp
  have h2: "(300::rat) / 3 \<le> 150 \<and> (150::rat) < 2 * 300 / 3" by simp
  have h3: "(300::rat) / 3 \<le> 290 \<and> (2::rat) * 300 / 3 \<le> 290" by simp
  have h4: "(0::rat) < 300" by simp
  note t1 = get_position_label_half_open [of 10 10 300 300]
  note t2 = get_position_label_half_open [of 150 150 300 300]
  note t3 = get_position_label_half_open [of 290 290 300 300]
  note a1 = t1 [THEN conjunct2, THEN conjunct1, THEN mp, OF h1]
  note a2 = t1 [THEN conjunct2, THEN conjunct2, THEN conjunct2, THEN conjunct2, THEN conjunct1, THEN mp, OF h1]
  note a3 = t2 [THEN conjunct2, THEN conjunct2, THEN conjunct1, THEN mp, OF h2]
  note a4 = t2 [THEN conjunct2, THEN conjunct2, THEN conjunct2, THEN conjunct2, THEN conjunct2, THEN conjunct1, THEN mp, OF h2]
  note a5 = t3 [THEN conjunct2, THEN conjunct2, THEN conjunct2, THEN conjunct1, THEN mp, OF h3]
  note a6 = t3 [THEN conjunct2, THEN conjunct2, THEN conjunct2, THEN conjunct2, THEN conjunct2, THEN conjunct2, THEN conjunct1, THEN mp, OF h3]
  note a7 = t1 [THEN conjunct2, THEN conjunct2, THEN conjunct2, THEN conjunct2, THEN conjunct2, THEN conjunct2, THEN conjunct2, THEN conjunct1, THEN mp, OF h4]
  note a8 = t1 [THEN conjunct2, THEN conjunct2, THEN conjunct2, THEN conjunct2, THEN conjunct2, THEN conjunct2, THEN conjunct2, THEN conjunct2, THEN conjunct1, THEN mp, OF h4]
  show ?thesis
    by (intro conjI a1 a2 a3 a4 a5 a6 a7 a8)
qed

section \<open>The trim\<close>

lemma sides_Some: "sides lr tb k = Some v \<Longrightarrow> v = lr \<or> v = tb"
  by (simp add: sides_def split: if_splits)

lemma get_percent_sides:
  "get_percent (sides lr tb) ''left'' = lr" "get_percent (sides lr tb) ''right'' = lr"
  "get_percent (sides lr tb) ''top'' = tb" "get_percent (sides lr tb) ''bottom'' = tb"
  by (simp_all add: sides_def get_percent_def)

text \<open>
  C2, as the claim states it, fails: a box narrower than 0.1 is widened to the floor 0.1.
  The box (0, 0, 0.05, 0.05) with an empty trim table becomes (0, 0, 0.1, 0.1), and 0.1 is
  not at most 0.05.
\<close>

theorem apply_trim_counterexample:
  "apply_trim (0, 0, 1 / 20, 1 / 20) Map.empty = (0, 0, 1 / 10, 1 / 10)
   \<and> \<not> ((1 / 10 :: rat) \<le> 1 / 20)"
  by (simp add: get_percent_def)

text \<open>
  C2, amended: for a trim table whose fractions are all in [0,1), a box whose width and
  height are at least 0.1 is trimmed to a box with \<open>x' \<ge> x\<close>, \<open>y' \<ge> y\<close>, \<open>w' \<le> w\<close>,
  \<open>h' \<le> h\<close> and \<open>w', h' \<ge> 0.1\<close>. For any box of positive width and height the same
  holds with \<open>w' \<le> max(w, 0.1)\<close> and \<open>h' \<le> max(h, 0.1)\<close>; a box with \<open>w \<le> 0\<close> or
  \<open>h \<le> 0\<close> is returned unchanged.
\<close>

theorem apply_trim_bounds:
  assumes "\<forall>v \<in> ran percents. 0 \<le> v \<and> v < 1"
    and "apply_trim (x, y, w, h) percents = (x', y', w', h')"
  shows "(1 / 10 \<le> w \<and> 1 / 10 \<le> h \<longrightarrow>
            x \<le> x' \<and> y \<le> y' \<and> w' \<le> w \<and> h' \<le> h \<and> 1 / 10 \<le> w' \<and> 1 / 10 \<le> h')
     \<and> (0 < w \<and> 0 < h \<longrightarrow>
            x \<le> x' \<and> y \<le> y' \<and> w' \<le> max w (1 / 10) \<and> h' \<le> max h (1 / 10)
            \<and> 1 / 10 \<le> w' \<and> 1 / 10 \<le> h')
     \<and> (w \<le> 0 \<or> h \<le> 0 \<longrightarrow> x' = x \<and> y' = y \<and> w' = w \<and> h' = h)"
proof (cases "w \<le> 0 \<or> h \<le> 0")
  case True
  with assms(2) have "x' = x \<and> y' = y \<and> w' = w \<and> h' = h" by auto
  with True show ?thesis by auto
next
  case False
  then have w: "0 < w" and h: "0 < h" by auto
  have nn: "0 \<le> get_percent percents k" for k
    using assms(1) by (auto simp: get_percent_def ran_def split: option.splits)
  have p: "0 \<le> w * get_percent percents ''left''" "0 \<le> w * get_percent percents ''right''"
    "0 \<le> h * get_percent percents ''top''" "0 \<le> h * get_percent percents ''bottom''"
    using w h nn by simp_all
  from assms(2) w h have eqs:
    "x' = x + w * get_percent percents ''left''"
    "y' = y + h * get_percent percents ''bottom''"
    "w' = max (1 / 10) (w - w * get_percent percents ''left'' - w * get_percent percents ''right'')"
    "h' = max (1 / 10) (h - h * get_percent percents ''top'' - h * get_percent percents ''bottom'')"
    by (simp_all add: Let_def)
  have a: "x \<le> x'" "y \<le> y'" "1 / 10 \<le> w'" "1 / 10 \<le> h'"
    unfolding eqs using p by simp_all
  have b: "w' \<le> max w (1 / 10)" "h' \<le> max h (1 / 10)"
    unfolding eqs using p by (auto simp: max_def)
  have c: "1 / 10 \<le> w \<Longrightarrow> w' \<le> w" "1 / 10 \<le> h \<Longrightarrow> h' \<le> h"
    using b by linarith+
  from False a b c show ?thesis by blast
qed

theorem apply_trim_bounds_witness:
  "apply_trim (0, 0, 10, 10) (sides (1 / 10) (3 / 25)) = (1, 6 / 5, 8, 38 / 5)
   \<and> ((0::rat) \<le> 1 \<and> (0::rat) \<le> 6 / 5 \<and> (8::rat) \<le> 10 \<and> (38 / 5 :: rat) \<le> 10
        \<and> (1 / 10 :: rat) \<le> 8 \<and> (1 / 10 :: rat) \<le> 38 / 5)
   \<and> apply_trim (0, 0, 0, 5) (sides (1 / 10) (3 / 25)) = (0, 0, 0, 5)"
proof -
  let ?p = "sides (1 / 10) (3 / 25)"
  have r: "\<forall>v \<in> ran ?p. 0 \<le> v \<and> v < 1"
  proof
    fix v assume "v \<in> ran ?p"
    then obtain k where "?p k = Some v" by (auto simp: ran_def)
    from sides_Some [OF this] show "0 \<le> v \<and> v < 1" by auto
  qed
  have e: "apply_trim (0, 0, 10, 10) ?p = (1, 6 / 5, 8, 38 / 5)"
    by (simp add: get_percent_sides)
  have a: "(1 / 10 :: rat) \<le> 10 \<and> (1 / 10 :: rat) \<le> 10" by simp
  note t = apply_trim_bounds [OF r e]
  note t1 = t [THEN conjunct1, THEN mp, OF a]
  have z: "apply_trim (0, 0, 0, 5) ?p = (0, 0, 0, 5)" by simp
  show ?thesis
    by (intro conjI e t1 z)
qed

section \<open>The loops of the finder compute their closed forms\<close>

lemma calculate_overlap_percentage_Inr:
  "calculate_overlap_percentage a b = Inr (metrics_of a b)"
  by (cases a; cases b) (simp add: metrics_of_def percent_if_positive_Inr Let_def)

lemma scan_Nil: "scan thr p [] s = s"
  by (simp add: scan_def kept_def add_rects_def)

lemma kept_append: "kept thr p (ps @ qs) = kept thr p ps @ kept thr p qs"
  by (simp add: kept_def)

lemma add_rects_append: "add_rects (rs @ rs') rects = add_rects rs' (add_rects rs rects)"
  by (simp add: add_rects_def)

lemma scan_append: "scan thr p (ps @ qs) s = scan thr p qs (scan thr p ps s)"
  by (simp add: scan_def kept_append add_rects_append)

lemma pair_step_scan: "pair_step thr p gi gj s = Inr (scan thr p [(gi, gj)] s)"
  by (simp add: pair_step_def Let_def calculate_overlap_percentage_Inr scan_def kept_def
      qualifies_def rejected_def mk_record_def add_rects_def)

lemma inner_loop_scan: "inner_loop thr p gi rest s = Inr (scan thr p (map (Pair gi) rest) s)"
proof (induction rest arbitrary: s)
  case Nil
  show ?case by (simp add: scan_Nil)
next
  case (Cons gj rest)
  have "scan thr p (map (Pair gi) (gj # rest)) s
      = scan thr p (map (Pair gi) rest) (scan thr p [(gi, gj)] s)"
    using scan_append [of thr p "[(gi, gj)]" "map (Pair gi) rest" s] by simp
  then show ?case by (simp add: pair_step_scan Cons.IH)
qed

lemma outer_loop_scan: "outer_loop thr p gs s = Inr (scan thr p (pairs gs) s)"
proof (induction gs arbitrary: s)
  case Nil
  show ?case by (simp add: scan_Nil)
next
  case (Cons gi rest)
  show ?case by (simp add: inner_loop_scan Cons.IH scan_append)
qed

lemma pages_loop_fold: "pages_loop thr gbp s = Inr (fold (page_step thr) gbp s)"
proof (induction gbp arbitrary: s)
  case Nil
  show ?case by simp
next
  case (Cons pg rest)
  obtain p gs where pg: "pg = (p, gs)" by (cases pg)
  show ?case
    unfolding pg by (simp add: outer_loop_scan Cons.IH page_step_def Let_def)
qed

lemma set_add_set: "set (set_add r rects) = insert r (set rects)"
  by (auto simp: set_add_def)

lemma set_add_distinct: "distinct rects \<Longrightarrow> distinct (set_add r rects)"
  by (simp add: set_add_def)

lemma add_rects_set:
  "set (add_rects recs rects) = set rects \<union> ov_a ` set recs \<union> ov_b ` set recs"
  unfolding add_rects_def
  by (induction recs arbitrary: rects) (auto simp: set_add_set)

lemma add_rects_distinct: "distinct rects \<Longrightarrow> distinct (add_rects recs rects)"
  unfolding add_rects_def
  by (induction recs arbitrary: rects) (simp_all add: set_add_distinct)

lemma add_rects_empty_iff: "add_rects recs [] = [] \<longleftrightarrow> recs = []"
proof -
  have "add_rects recs [] = [] \<longleftrightarrow> set (add_rects recs []) = {}" by simp
  also have "\<dots> \<longleftrightarrow> recs = []" by (simp add: add_rects_set)
  finally show ?thesis .
qed

lemma page_step_overlaps:
  "overlaps (page_step thr pg s) = overlaps s @ kept thr (fst pg) (pairs (snd pg))"
  by (simp add: page_step_def Let_def scan_def)

lemma page_step_total:
  "total (page_step thr pg s) = total s + length (kept thr (fst pg) (pairs (snd pg)))"
  by (simp add: page_step_def Let_def scan_def)

lemma page_step_highlights:
  "highlights_by_page (page_step thr pg s) =
     (if kept thr (fst pg) (pairs (snd pg)) = [] then highlights_by_page s
      else (highlights_by_page s)(fst pg \<mapsto> add_rects (kept thr (fst pg) (pairs (snd pg))) []))"
  by (simp add: page_step_def Let_def scan_def add_rects_empty_iff)

lemma fold_page_step_overlaps:
  "overlaps (fold (page_step thr) gbp s) = overlaps s @ all_kept thr gbp"
  by (induction gbp arbitrary: s) (simp_all add: all_kept_def page_step_overlaps)

lemma fold_page_step_total:
  "total (fold (page_step thr) gbp s) = total s + length (all_kept thr gbp)"
  by (induction gbp arbitrary: s) (simp_all add: all_kept_def page_step_total)

lemma fold_page_step_dom:
  "dom (highlights_by_page (fold (page_step thr) gbp s)) =
     dom (highlights_by_page s)
     \<union> {p. \<exists>pg \<in> set gbp. fst pg = p \<and> kept thr p (pairs (snd pg)) \<noteq> []}"
proof (induction gbp arbitrary: s)
  case Nil
  show ?case by simp
next
  case (Cons pg rest)
  show ?case
    by (auto simp: Cons.IH page_step_highlights split: if_splits)
qed

lemma fold_page_step_distinct:
  "(\<And>p rects. highlights_by_page s p = Some rects \<Longrightarrow> distinct rects) \<Longrightarrow>
   highlights_by_page (fold (page_step thr) gbp s) p = Some rects \<Longrightarrow> distinct rects"
proof (induction gbp arbitrary: s)
  case Nil
  then show ?case by simp
next
  case (Cons pg rest)
  have "\<And>q r. highlights_by_page (page_step thr pg s) q = Some r \<Longrightarrow> distinct r"
    using Cons.prems(1)
    by (auto simp: page_step_highlights add_rects_distinct split: if_splits)
  with Cons.IH [of "page_step thr pg s"] Cons.prems(2) show ?case by simp
qed

lemma kept_page: "r \<in> set (kept thr p ps) \<Longrightarrow> ov_page r = p"
  by (auto simp: kept_def mk_record_def)

lemma kept_percentage: "r \<in> set (kept thr p ps) \<Longrightarrow> thr < ov_percentage_of_union r"
  by (auto simp: kept_def mk_record_def qualifies_def)

lemma all_kept_percentage: "r \<in> set (all_kept thr gbp) \<Longrightarrow> thr < ov_percentage_of_union r"
  by (auto simp: all_kept_def dest: kept_percentage)

lemma all_kept_pages:
  "(\<exists>r \<in> set (all_kept thr gbp). ov_page r = p) \<longleftrightarrow>
   (\<exists>pg \<in> set gbp. fst pg = p \<and> kept thr p (pairs (snd pg)) \<noteq> [])"
proof
  assume "\<exists>r \<in> set (all_kept thr gbp). ov_page r = p"
  then obtain r pg where r: "ov_page r = p" "pg \<in> set gbp"
      "r \<in> set (kept thr (fst pg) (pairs (snd pg)))"
    by (auto simp: all_kept_def)
  from kept_page [OF r(3)] r(1) have "fst pg = p" by simp
  with r show "\<exists>pg \<in> set gbp. fst pg = p \<and> kept thr p (pairs (snd pg)) \<noteq> []" by auto
next
  assume "\<exists>pg \<in> set gbp. fst pg = p \<and> kept thr p (pairs (snd pg)) \<noteq> []"
  then obtain pg where pg0: "pg \<in> set gbp" "fst pg = p" "kept thr p (pairs (snd pg)) \<noteq> []"
    by auto
  from pg0(3) obtain r where "r \<in> set (kept thr p (pairs (snd pg)))"
    using hd_in_set by blast
  with pg0 have pg: "pg \<in> set gbp" "fst pg = p" "r \<in> set (kept thr p (pairs (snd pg)))"
    by simp_all
  from kept_page [OF pg(3)] pg show "\<exists>r \<in> set (all_kept thr gbp). ov_page r = p"
    by (auto simp: all_kept_def intro!: bexI [of _ pg] bexI [of _ r])
qed

lemma find_overlaps_by_page_closed:
  "find_overlaps_by_page gbp thr =
     Inr (let s = fold (page_step thr) gbp
                    \<lparr>overlaps = [], highlights_by_page = Map.empty, total = 0,
                     filtered_count = 0, page_rects = []\<rparr>
          in (overlaps s, highlights_by_page s, total s, filtered_count s))"
  by (simp add: find_overlaps_by_page_def pages_loop_fold Let_def)

lemma find_overlaps_by_page_result:
  "\<exists>hl filt. find_overlaps_by_page gbp thr = Inr (all_kept thr gbp, hl, length (all_kept thr gbp), filt)
     \<and> dom hl = {p. \<exists>r \<in> set (all_kept thr gbp). ov_page r = p}
     \<and> (\<forall>p rects. hl p = Some rects \<longrightarrow> distinct rects)"
proof -
  let ?init = "\<lparr>overlaps = [], highlights_by_page = Map.empty, total = 0,
               filtered_count = 0, page_rects = []\<rparr>"
  let ?fin = "fold (page_step thr) gbp ?init"
  have 1: "overlaps ?fin = all_kept thr gbp" by (simp add: fold_page_step_overlaps)
  have 2: "total ?fin = length (all_kept thr gbp)" by (simp add: fold_page_step_total)
  have 3: "dom (highlights_by_page ?fin) = {p. \<exists>r \<in> set (all_kept thr gbp). ov_page r = p}"
    by (simp add: fold_page_step_dom all_kept_pages)
  have 4: "\<forall>p rects. highlights_by_page ?fin p = Some rects \<longrightarrow> distinct rects"
    using fold_page_step_distinct [where s = ?init and thr = thr and gbp = gbp] by simp
  show ?thesis
    unfolding find_overlaps_by_page_closed Let_def using 1 2 3 4 by simp
qed

section \<open>Threshold, kept pairs and highlights\<close>

lemma filter_length_mono:
  "(\<And>x. P x \<Longrightarrow> Q x) \<Longrightarrow> length (filter P xs) \<le> length (filter Q xs)"
  by (induction xs) auto

lemma kept_length_mono:
  assumes "t1 \<le> t2"
  shows "length (kept t2 p ps) \<le> length (kept t1 p ps)"
proof -
  have "qualifies t2 pr \<Longrightarrow> qualifies t1 pr" for pr
    using assms by (auto simp: qualifies_def)
  then show ?thesis
    by (simp add: kept_def filter_length_mono)
qed

lemma all_kept_length_mono:
  "t1 \<le> t2 \<Longrightarrow> length (all_kept t2 gbp) \<le> length (all_kept t1 gbp)"
proof (induction gbp)
  case Nil
  show ?case by (simp add: all_kept_def)
next
  case (Cons pg rest)
  from Cons have "length (all_kept t2 rest) \<le> length (all_kept t1 rest)" by simp
  moreover have "length (kept t2 (fst pg) (pairs (snd pg)))
      \<le> length (kept t1 (fst pg) (pairs (snd pg)))"
    using Cons.prems by (rule kept_length_mono)
  ultimately show ?case by (simp add: all_kept_def)
qed

lemma pairs_nth: "i < j \<Longrightarrow> j < length xs \<Longrightarrow> (xs ! i, xs ! j) \<in> set (pairs xs)"
proof (induction xs arbitrary: i j)
  case Nil
  then show ?case by simp
next
  case (Cons x xs)
  show ?case
  proof (cases i)
    case 0
    with Cons.prems obtain j' where "j = Suc j'" "j' < length xs" by (cases j) auto
    with 0 show ?thesis by simp
  next
    case (Suc i')
    with Cons.prems obtain j' where j: "j = Suc j'" "i' < j'" "j' < length xs" by (cases j) auto
    from Cons.IH [OF j(2,3)] Suc j show ?thesis by simp
  qed
qed

lemma example_metrics:
  "calculate_overlap_percentage (0, 0, 10, 10) (5, 5, 10, 10) =
     Inr \<lparr>overlap_area = 25, percentage_of_a = 25, percentage_of_b = 25,
          percentage_of_total = 1429 / 100\<rparr>"
  "calculate_overlap_percentage (0, 0, 200, 200) (199, 199, 200, 200) =
     Inr \<lparr>overlap_area = 1, percentage_of_a = 0, percentage_of_b = 0,
          percentage_of_total = 0\<rparr>"
  "calculate_overlap_percentage (0, 0, 10, 10) (0, 0, 10, 10) =
     Inr \<lparr>overlap_area = 100, percentage_of_a = 100, percentage_of_b = 100,
          percentage_of_total = 100\<rparr>"
  by code_simp+

lemmas finder_eval =
  find_overlaps_by_page_def pair_step_def box_of_def set_add_def Let_def example_metrics

lemma example_finder_0:
  "find_overlaps_by_page
     [(1, [\<lparr>pg_char = [65], pg_x = 0, pg_y = 0, pg_width = 10, pg_height = 10\<rparr>,
           \<lparr>pg_char = [66], pg_x = 5, pg_y = 5, pg_width = 10, pg_height = 10\<rparr>])] 0 =
   Inr ([\<lparr>ov_page = 1, ov_a = (0, 0, 10, 10), ov_b = (5, 5, 10, 10), ov_char_a = [65],
           ov_char_b = [66], ov_percentage_of_union = 1429 / 100\<rparr>],
        [1 \<mapsto> [(0, 0, 10, 10), (5, 5, 10, 10)]], 1, 0)"
  by (simp add: finder_eval del: calculate_overlap_percentage.simps)

lemma example_finder_50:
  "find_overlaps_by_page
     [(1, [\<lparr>pg_char = [65], pg_x = 0, pg_y = 0, pg_width = 10, pg_height = 10\<rparr>,
           \<lparr>pg_char = [66], pg_x = 5, pg_y = 5, pg_width = 10, pg_height = 10\<rparr>])] 50 =
   Inr ([], Map.empty, 0, 1)"
  by (simp add: finder_eval del: calculate_overlap_percentage.simps)

text \<open>
  C1, as the claim states it, fails: the percentage is rounded to two decimals before it is
  compared with the threshold. The boxes (0,0,200,200) and (199,199,200,200) intersect in
  an area of 1, which is 0.00125 percent of their union and rounds to 0.00; at threshold 0
  the pair is not kept but counted as filtered.
\<close>

theorem find_overlaps_by_page_counterexample:
  "intersects (0, 0, 200, 200) (199, 199, 200, 200)
   \<and> (min (0 + 200) (199 + 200) - max 0 199) * (min (0 + 200) (199 + 200) - max 0 199)
       = (1::rat)
   \<and> find_overlaps_by_page
       [(1, [\<lparr>pg_char = [65], pg_x = 0, pg_y = 0, pg_width = 200, pg_height = 200\<rparr>,
             \<lparr>pg_char = [66], pg_x = 199, pg_y = 199, pg_width = 200, pg_height = 200\<rparr>])] 0
     = Inr ([], Map.empty, 0, 1)"
  by (simp add: finder_eval del: calculate_overlap_percentage.simps)

text \<open>
  C1, amended: for every page and every pair of glyphs \<open>i < j\<close> on it whose boxes
  intersect and whose percentage of union, as \<open>calculate_overlap_percentage\<close> returns it
  (rounded to two decimals), is greater than 0, the finder at threshold 0 returns and keeps
  the pair as an overlap record.
\<close>

theorem find_overlaps_by_page_keeps_positive:
  assumes "(p, gs) \<in> set gbp" and "i < j" and "j < length gs"
    and "intersects (box_of (gs ! i)) (box_of (gs ! j))"
    and "calculate_overlap_percentage (box_of (gs ! i)) (box_of (gs ! j)) = Inr m"
    and "0 < percentage_of_total m"
  shows "\<exists>ovs hl tot filt.
           find_overlaps_by_page gbp 0 = Inr (ovs, hl, tot, filt)
           \<and> \<lparr>ov_page = p, ov_a = box_of (gs ! i), ov_b = box_of (gs ! j),
               ov_char_a = pg_char (gs ! i), ov_char_b = pg_char (gs ! j),
               ov_percentage_of_union = percentage_of_total m\<rparr> \<in> set ovs"
proof -
  let ?pr = "(gs ! i, gs ! j)"
  from assms(5) have m: "metrics_of (box_of (gs ! i)) (box_of (gs ! j)) = m"
    by (simp add: metrics_of_def)
  have "?pr \<in> set (pairs gs)" using assms(2,3) by (rule pairs_nth)
  moreover have "qualifies 0 ?pr" using assms(4,6) m by (simp add: qualifies_def)
  ultimately have "mk_record p ?pr \<in> set (kept 0 p (pairs gs))"
    by (simp add: kept_def)
  with assms(1) have "mk_record p ?pr \<in> set (all_kept 0 gbp)"
    by (force simp: all_kept_def)
  then have "\<lparr>ov_page = p, ov_a = box_of (gs ! i), ov_b = box_of (gs ! j),
               ov_char_a = pg_char (gs ! i), ov_char_b = pg_char (gs ! j),
               ov_percentage_of_union = percentage_of_total m\<rparr> \<in> set (all_kept 0 gbp)"
    by (simp add: mk_record_def m)
  with find_overlaps_by_page_result [of gbp 0] show ?thesis by blast
qed

theorem find_overlaps_by_page_keeps_positive_witness:
  "\<exists>ovs hl tot filt.
     find_overlaps_by_page
       [(1, [\<lparr>pg_char = [65], pg_x = 0, pg_y = 0, pg_width = 10, pg_height = 10\<rparr>,
             \<lparr>pg_char = [66], pg_x = 5, pg_y = 5, pg_width = 10, pg_height = 10\<rparr>])] 0
       = Inr (ovs, hl, tot, filt)
     \<and> \<lparr>ov_page = 1, ov_a = (0, 0, 10, 10), ov_b = (5, 5, 10, 10), ov_char_a = [65],
         ov_char_b = [66], ov_percentage_of_union = 1429 / 100\<rparr> \<in> set ovs"
proof -
  let ?gA = "\<lparr>pg_char = [65], pg_x = 0, pg_y = 0, pg_width = 10, pg_height = 10\<rparr>"
  let ?gB = "\<lparr>pg_char = [66], pg_x = 5, pg_y = 5, pg_width = 10, pg_height = 10\<rparr>"
  let ?m = "\<lparr>overlap_area = 25, percentage_of_a = 25, percentage_of_b = 25,
             percentage_of_total = 1429 / 100\<rparr>"
  have 1: "(1, [?gA, ?gB]) \<in> set [(1, [?gA, ?gB])]" by simp
  have 2: "(0::nat) < 1" by simp
  have 3: "1 < length [?gA, ?gB]" by simp
  have 4: "intersects (box_of ([?gA, ?gB] ! 0)) (box_of ([?gA, ?gB] ! 1))"
    by (simp add: box_of_def)
  have 5: "calculate_overlap_percentage (box_of ([?gA, ?gB] ! 0)) (box_of ([?gA, ?gB] ! 1))
      = Inr ?m"
    by (simp add: box_of_def example_metrics del: calculate_overlap_percentage.simps)
  have 6: "0 < percentage_of_total ?m" by simp
  from find_overlaps_by_page_keeps_positive [OF 1 2 3 4 5 6]
  show ?thesis by (simp add: box_of_def)
qed

text \<open>
  C3: for thresholds \<open>t1 \<le> t2\<close> the finder returns at both, the total at \<open>t2\<close> is at
  most the total at \<open>t1\<close>, and every kept record has a percentage of union strictly
  above the threshold it was kept at.
\<close>

theorem find_overlaps_by_page_threshold:
  assumes "t1 \<le> t2"
  shows "\<exists>ovs1 hl1 tot1 filt1 ovs2 hl2 tot2 filt2.
           find_overlaps_by_page gbp t1 = Inr (ovs1, hl1, tot1, filt1)
           \<and> find_overlaps_by_page gbp t2 = Inr (ovs2, hl2, tot2, filt2)
           \<and> tot2 \<le> tot1
           \<and> (\<forall>r \<in> set ovs1. t1 < ov_percentage_of_union r)
           \<and> (\<forall>r \<in> set ovs2. t2 < ov_percentage_of_union r)"
proof -
  from find_overlaps_by_page_result [of gbp t1] obtain hl1 filt1 where
    1: "find_overlaps_by_page gbp t1 = Inr (all_kept t1 gbp, hl1, length (all_kept t1 gbp), filt1)"
    by blast
  from find_overlaps_by_page_result [of gbp t2] obtain hl2 filt2 where
    2: "find_overlaps_by_page gbp t2 = Inr (all_kept t2 gbp, hl2, length (all_kept t2 gbp), filt2)"
    by blast
  from all_kept_length_mono [OF assms] have 3: "length (all_kept t2 gbp) \<le> length (all_kept t1 gbp)" .
  have 4: "\<forall>r \<in> set (all_kept t gbp). t < ov_percentage_of_union r" for t
    by (auto dest: all_kept_percentage)
  from 1 2 3 4 [of t1] 4 [of t2] show ?thesis by blast
qed

theorem find_overlaps_by_page_threshold_witness:
  "\<exists>ovs1 hl1 tot1 filt1 ovs2 hl2 tot2 filt2.
     find_overlaps_by_page
       [(1, [\<lparr>pg_char = [65], pg_x = 0, pg_y = 0, pg_width = 10, pg_height = 10\<rparr>,
             \<lparr>pg_char = [66], pg_x = 5, pg_y = 5, pg_width = 10, pg_height = 10\<rparr>])] 0
       = Inr (ovs1, hl1, tot1, filt1)
     \<and> find_overlaps_by_page
       [(1, [\<lparr>pg_char = [65], pg_x = 0, pg_y = 0, pg_width = 10, pg_height = 10\<rparr>,
             \<lparr>pg_char = [66], pg_x = 5, pg_y = 5, pg_width = 10, pg_height = 10\<rparr>])] 50
       = Inr (ovs2, hl2, tot2, filt2)
     \<and> tot1 = 1 \<and> tot2 = 0 \<and> tot2 \<le> tot1 \<and> length ovs1 = 1"
proof -
  have h: "(0::rat) \<le> 50" by simp
  from find_overlaps_by_page_threshold [OF h] example_finder_0 example_finder_50
  show ?thesis by simp
qed

text \<open>
  C10: the finder returns for every input; the returned total is the length of the
  returned list; a page is a key of the highlights exactly when a kept record is on that
  page; and no highlight list has a box twice.
\<close>

theorem find_overlaps_by_page_invariants:
  "\<exists>ovs hl tot filt.
     find_overlaps_by_page gbp thr = Inr (ovs, hl, tot, filt)
     \<and> tot = length ovs
     \<and> (\<forall>p. p \<in> dom hl \<longleftrightarrow> (\<exists>r \<in> set ovs. ov_page r = p))
     \<and> (\<forall>p rects. hl p = Some rects \<longrightarrow> distinct rects)"
proof -
  from find_overlaps_by_page_result [of gbp thr] obtain hl filt where
    r: "find_overlaps_by_page gbp thr = Inr (all_kept thr gbp, hl, length (all_kept thr gbp), filt)"
      "dom hl = {p. \<exists>r \<in> set (all_kept thr gbp). ov_page r = p}"
      "\<forall>p rects. hl p = Some rects \<longrightarrow> distinct rects"
    by blast
  from r(2) have "\<forall>p. p \<in> dom hl \<longleftrightarrow> (\<exists>r \<in> set (all_kept thr gbp). ov_page r = p)"
    by blast
  with r(1,3) show ?thesis by blast
qed

theorem find_overlaps_by_page_invariants_witness:
  "find_overlaps_by_page
     [(1, [\<lparr>pg_char = [65], pg_x = 0, pg_y = 0, pg_width = 10, pg_height = 10\<rparr>,
           \<lparr>pg_char = [66], pg_x = 5, pg_y = 5, pg_width = 10, pg_height = 10\<rparr>])] 0 =
   Inr ([\<lparr>ov_page = 1, ov_a = (0, 0, 10, 10), ov_b = (5, 5, 10, 10), ov_char_a = [65],
           ov_char_b = [66], ov_percentage_of_union = 1429 / 100\<rparr>],
        [1 \<mapsto> [(0, 0, 10, 10), (5, 5, 10, 10)]], 1, 0)
   \<and> distinct ([(0, 0, 10, 10), (5, 5, 10, 10)] :: box list)
   \<and> (1::int) \<in> dom [1 \<mapsto> ([(0, 0, 10, 10), (5, 5, 10, 10)] :: box list)]"
proof -
  let ?gbp = "[(1, [\<lparr>pg_char = [65], pg_x = 0, pg_y = 0, pg_width = 10, pg_height = 10\<rparr>,
           \<lparr>pg_char = [66], pg_x = 5, pg_y = 5, pg_width = 10, pg_height = 10\<rparr>])]"
  from find_overlaps_by_page_invariants [of ?gbp 0] obtain ovs hl tot filt where
    r: "find_overlaps_by_page ?gbp 0 = Inr (ovs, hl, tot, filt)"
    "\<forall>p rects. hl p = Some rects \<longrightarrow> distinct rects"
    "\<forall>p. p \<in> dom hl \<longleftrightarrow> (\<exists>r \<in> set ovs. ov_page r = p)"
    by blast
  from r(1) example_finder_0 have hl: "hl = [1 \<mapsto> [(0, 0, 10, 10), (5, 5, 10, 10)]]"
    and ovs: "ovs = [\<lparr>ov_page = 1, ov_a = (0, 0, 10, 10), ov_b = (5, 5, 10, 10), ov_char_a = [65],
           ov_char_b = [66], ov_percentage_of_union = 1429 / 100\<rparr>]"
    by simp_all
  from r(2) [rule_format, of 1 "[(0, 0, 10, 10), (5, 5, 10, 10)]"] hl
  have d: "distinct ([(0, 0, 10, 10), (5, 5, 10, 10)] :: box list)" by simp
  from r(3) [rule_format, of 1] ovs have "1 \<in> dom hl" by simp
  with hl have m: "(1::int) \<in> dom [1 \<mapsto> ([(0, 0, 10, 10), (5, 5, 10, 10)] :: box list)]"
    by simp
  from example_finder_0 d m show ?thesis by (intro conjI)
qed

section \<open>The page grouper and missing page numbers\<close>

lemma group_loop_None:
  "g_page g = None \<Longrightarrow>
     group_loop u (g # gs) fw et ts st = Inl (ValueError ''Glyph record missing page number'')"
  by (cases st) simp

lemma group_loop_Some:
  "g_page g = Some page \<Longrightarrow> \<exists>st'. group_loop u (g # gs) fw et ts st = group_loop u gs fw et ts st'"
proof (cases st)
  case (fields bp fc tc)
  assume pg: "g_page g = Some page"
  show ?thesis
  proof (cases "fw \<and> is_watermark g 40 None")
    case True
    with pg fields have "group_loop u (g # gs) fw et ts st = group_loop u gs fw et ts (bp, fc + 1, tc)"
      by simp
    then show ?thesis by blast
  next
    case False
    have "group_loop u (g # gs) fw et ts (bp, fc, tc)
        = group_loop u gs fw et ts
            (setdefault_append bp page
               (case (if et then apply_trim (g_bbox g) (get_char_trim_percents u (g_char g) ts)
                      else g_bbox g) of
                  (bx, by, bw, bh) \<Rightarrow>
                    \<lparr>pg_char = g_char g, pg_x = bx, pg_y = by, pg_width = bw, pg_height = bh\<rparr>),
             fc, if et then tc + 1 else tc)"
      using False by (simp only: group_loop.simps pg option.case if_False Let_def)
    with fields have "\<exists>st'. group_loop u (g # gs) fw et ts st = group_loop u gs fw et ts st'"
      by blast
    then show ?thesis by blast
  qed
qed

lemma group_loop_Inl:
  "(\<exists>e. group_loop u gs fw et ts st = Inl e) \<longleftrightarrow> (\<exists>g \<in> set gs. g_page g = None)"
proof (induction gs arbitrary: st)
  case Nil
  show ?case by simp
next
  case (Cons g gs)
  show ?case
  proof (cases "g_page g")
    case None
    then show ?thesis by (simp add: group_loop_None)
  next
    case (Some page)
    from group_loop_Some [OF Some] obtain st' where
      "group_loop u (g # gs) fw et ts st = group_loop u gs fw et ts st'" by blast
    with Cons.IH [of st'] Some show ?thesis by simp
  qed
qed

lemma group_loop_error:
  "group_loop u gs fw et ts st = Inl e \<Longrightarrow> e = ValueError ''Glyph record missing page number''"
proof (induction gs arbitrary: st)
  case Nil
  then show ?case by simp
next
  case (Cons g gs)
  show ?case
  proof (cases "g_page g")
    case None
    with Cons.prems show ?thesis by (simp add: group_loop_None)
  next
    case (Some page)
    from group_loop_Some [OF Some] obtain st' where
      "group_loop u (g # gs) fw et ts st = group_loop u gs fw et ts st'" by blast
    with Cons.prems have "group_loop u gs fw et ts st' = Inl e" by simp
    then show ?thesis by (rule Cons.IH)
  qed
qed

lemma group_glyphs_by_page_Inl:
  "group_glyphs_by_page u gs fw et ts = Inl e \<longleftrightarrow> group_loop u gs fw et ts ([], 0, 0) = Inl e"
  by (auto simp: group_glyphs_by_page_def split: sum.splits)

text \<open>
  C6: the grouper fails exactly when some glyph of the list has no page number, and then
  with the data error ``Glyph record missing page number''; when every glyph has a page
  number it returns the map of pages.
\<close>

theorem group_glyphs_by_page_data_error:
  "((\<exists>e. group_glyphs_by_page u gs fw et ts = Inl e) \<longleftrightarrow> (\<exists>g \<in> set gs. g_page g = None))
   \<and> (\<forall>e. group_glyphs_by_page u gs fw et ts = Inl e
         \<longrightarrow> e = ValueError ''Glyph record missing page number'')
   \<and> ((\<forall>g \<in> set gs. g_page g \<noteq> None) \<longrightarrow> (\<exists>bp. group_glyphs_by_page u gs fw et ts = Inr bp))"
proof -
  have 1: "(\<exists>e. group_glyphs_by_page u gs fw et ts = Inl e) \<longleftrightarrow> (\<exists>g \<in> set gs. g_page g = None)"
    by (simp add: group_glyphs_by_page_Inl group_loop_Inl)
  have 2: "\<forall>e. group_glyphs_by_page u gs fw et ts = Inl e
         \<longrightarrow> e = ValueError ''Glyph record missing page number''"
    by (auto simp: group_glyphs_by_page_Inl dest: group_loop_error)
  have 3: "(\<forall>g \<in> set gs. g_page g \<noteq> None) \<longrightarrow> (\<exists>bp. group_glyphs_by_page u gs fw et ts = Inr bp)"
  proof
    assume "\<forall>g \<in> set gs. g_page g \<noteq> None"
    with 1 have "\<not> (\<exists>e. group_glyphs_by_page u gs fw et ts = Inl e)" by blast
    then show "\<exists>bp. group_glyphs_by_page u gs fw et ts = Inr bp"
      by (cases "group_glyphs_by_page u gs fw et ts") auto
  qed
  from 1 2 3 show ?thesis by blast
qed

lemma example_group:
  "group_glyphs_by_page latin1_tables
     [\<lparr>g_char = [65], g_page = Some 1, g_bbox = (0, 0, 10, 10), g_fontSize = Some 12\<rparr>,
      \<lparr>g_char = [65], g_page = Some 1, g_bbox = (0, 0, 10, 10), g_fontSize = Some 12\<rparr>]
     True False 1 =
   Inr [(1, [\<lparr>pg_char = [65], pg_x = 0, pg_y = 0, pg_width = 10, pg_height = 10\<rparr>,
             \<lparr>pg_char = [65], pg_x = 0, pg_y = 0, pg_width = 10, pg_height = 10\<rparr>])]"
  by (simp add: group_glyphs_by_page_def is_watermark_def get_fontSize_def Let_def)

theorem group_glyphs_by_page_data_error_witness:
  "(\<exists>bp. group_glyphs_by_page latin1_tables
     [\<lparr>g_char = [65], g_page = Some 1, g_bbox = (0, 0, 10, 10), g_fontSize = Some 12\<rparr>,
      \<lparr>g_char = [65], g_page = Some 1, g_bbox = (0, 0, 10, 10), g_fontSize = Some 12\<rparr>]
     True False 1 = Inr bp)
   \<and> group_glyphs_by_page latin1_tables
     [\<lparr>g_char = [65], g_page = Some 1, g_bbox = (0, 0, 10, 10), g_fontSize = Some 12\<rparr>,
      \<lparr>g_char = [66], g_page = None, g_bbox = (0, 0, 10, 10), g_fontSize = Some 12\<rparr>]
     True False 1 = Inl (ValueError ''Glyph record missing page number'')"
proof -
  let ?a = "\<lparr>g_char = [65], g_page = Some 1, g_bbox = (0, 0, 10, 10), g_fontSize = Some 12\<rparr>"
  let ?b = "\<lparr>g_char = [66], g_page = None, g_bbox = (0, 0, 10, 10), g_fontSize = Some 12\<rparr>"
  have h: "\<forall>g \<in> set [?a, ?a]. g_page g \<noteq> None" by simp
  note t = group_glyphs_by_page_data_error [of latin1_tables "[?a, ?a]" True False 1]
  note 1 = t [THEN conjunct2, THEN conjunct2, THEN mp, OF h]
  have h2: "\<exists>g \<in> set [?a, ?b]. g_page g = None" by simp
  note u = group_glyphs_by_page_data_error [of latin1_tables "[?a, ?b]" True False 1]
  from u [THEN conjunct1, THEN iffD2, OF h2] obtain e where
    e: "group_glyphs_by_page latin1_tables [?a, ?b] True False 1 = Inl e" by blast
  from u [THEN conjunct2, THEN conjunct1, rule_format, OF e] e
  have 2: "group_glyphs_by_page latin1_tables [?a, ?b] True False 1
      = Inl (ValueError ''Glyph record missing page number'')" by simp
  from 1 2 show ?thesis by (intro conjI)
qed

section \<open>Two identical glyphs\<close>

lemma py_round_100: "py_round 100 2 = 100"
  by code_simp

lemma identical_boxes:
  assumes "0 < w" and "0 < h"
  shows "calculate_overlap_percentage (x, y, w, h) (x, y, w, h) =
     Inr \<lparr>overlap_area = py_round (w * h) 2, percentage_of_a = 100,
          percentage_of_b = 100, percentage_of_total = 100\<rparr>"
proof -
  from assms have p: "0 < w * h" by simp
  from assms have q: "w * h / (w * h) = 1" by simp
  from assms p show ?thesis
    by (simp add: percent_if_positive_Inr Let_def q py_round_100)
qed

lemma example_finder_identical:
  "find_overlaps_by_page
     [(1, [\<lparr>pg_char = [65], pg_x = 0, pg_y = 0, pg_width = 10, pg_height = 10\<rparr>,
           \<lparr>pg_char = [65], pg_x = 0, pg_y = 0, pg_width = 10, pg_height = 10\<rparr>])] 0 =
   Inr ([\<lparr>ov_page = 1, ov_a = (0, 0, 10, 10), ov_b = (0, 0, 10, 10), ov_char_a = [65],
           ov_char_b = [65], ov_percentage_of_union = 100\<rparr>],
        [1 \<mapsto> [(0, 0, 10, 10)]], 1, 0)"
  by (simp add: finder_eval del: calculate_overlap_percentage.simps)

lemma example_metrics_zero_area:
  "calculate_overlap_percentage (1, 1, 0, 5) (1, 1, 0, 5) =
     Inr \<lparr>overlap_area = 0, percentage_of_a = 0, percentage_of_b = 0,
          percentage_of_total = 0\<rparr>"
  by code_simp

text \<open>
  C5, as the claim states it, fails in its second half: identical boxes need not yield 100.
  The identical boxes (1,1,0,5) have zero area; the guards against division by zero make
  all three of their percentages 0, and the finder keeps no record for two glyphs with
  this box.
\<close>

theorem identical_boxes_counterexample:
  "calculate_overlap_percentage (1, 1, 0, 5) (1, 1, 0, 5) =
     Inr \<lparr>overlap_area = 0, percentage_of_a = 0, percentage_of_b = 0,
          percentage_of_total = 0\<rparr>
   \<and> (0::rat) \<noteq> 100
   \<and> find_overlaps_by_page
       [(1, [\<lparr>pg_char = [65], pg_x = 1, pg_y = 1, pg_width = 0, pg_height = 5\<rparr>,
             \<lparr>pg_char = [65], pg_x = 1, pg_y = 1, pg_width = 0, pg_height = 5\<rparr>])] 0
     = Inr ([], Map.empty, 0, 0)"
  by (simp add: finder_eval example_metrics_zero_area del: calculate_overlap_percentage.simps)

text \<open>
  C5, amended: grouping the two identical glyphs \<open>A\<close> (code point 65) on page 1 with box
  (0,0,10,10) and font size 12, with watermark filtering and no trim, and running the
  finder at threshold 0 on the result, gives exactly one overlap record, whose percentage
  of union is 100. The metrics of these boxes are all 100, as are the three percentages of
  any two identical boxes of positive width and height.
\<close>

theorem identical_glyphs_pipeline:
  "group_glyphs_by_page latin1_tables
     [\<lparr>g_char = [65], g_page = Some 1, g_bbox = (0, 0, 10, 10), g_fontSize = Some 12\<rparr>,
      \<lparr>g_char = [65], g_page = Some 1, g_bbox = (0, 0, 10, 10), g_fontSize = Some 12\<rparr>]
     True False 1 =
   Inr [(1, [\<lparr>pg_char = [65], pg_x = 0, pg_y = 0, pg_width = 10, pg_height = 10\<rparr>,
             \<lparr>pg_char = [65], pg_x = 0, pg_y = 0, pg_width = 10, pg_height = 10\<rparr>])]
   \<and> find_overlaps_by_page
     [(1, [\<lparr>pg_char = [65], pg_x = 0, pg_y = 0, pg_width = 10, pg_height = 10\<rparr>,
           \<lparr>pg_char = [65], pg_x = 0, pg_y = 0, pg_width = 10, pg_height = 10\<rparr>])] 0 =
   Inr ([\<lparr>ov_page = 1, ov_a = (0, 0, 10, 10), ov_b = (0, 0, 10, 10), ov_char_a = [65],
           ov_char_b = [65], ov_percentage_of_union = 100\<rparr>],
        [1 \<mapsto> [(0, 0, 10, 10)]], 1, 0)
   \<and> calculate_overlap_percentage (0, 0, 10, 10) (0, 0, 10, 10) =
       Inr \<lparr>overlap_area = 100, percentage_of_a = 100, percentage_of_b = 100,
            percentage_of_total = 100\<rparr>
   \<and> (\<forall>x y w h. 0 < w \<and> 0 < h \<longrightarrow>
        (\<exists>m. calculate_overlap_percentage (x, y, w, h) (x, y, w, h) = Inr m
           \<and> percentage_of_a m = 100 \<and> percentage_of_b m = 100
           \<and> percentage_of_total m = 100))"
proof -
  have "\<forall>x y w h. 0 < w \<and> 0 < h \<longrightarrow>
        (\<exists>m. calculate_overlap_percentage (x, y, w, h) (x, y, w, h) = Inr m
           \<and> percentage_of_a m = 100 \<and> percentage_of_b m = 100
           \<and> percentage_of_total m = 100)"
    by (intro allI impI, elim conjE) (simp only: identical_boxes, simp)
  with example_group example_finder_identical example_metrics(3) show ?thesis
    by (intro conjI)
qed

theorem identical_glyphs_pipeline_witness:
  "\<exists>m. calculate_overlap_percentage (3, 4, 2, 5) (3, 4, 2, 5) = Inr m
     \<and> percentage_of_a m = 100 \<and> percentage_of_b m = 100 \<and> percentage_of_total m = 100"
proof -
  have h: "(0::rat) < 2 \<and> (0::rat) < 5" by simp
  note t = identical_glyphs_pipeline [THEN conjunct2, THEN conjunct2, THEN conjunct2]
  from t [rule_format, OF h] show ?thesis .
qed

section \<open>The character statistics\<close>

lemma counter_incr_sum: "sum_list (map snd (counter_incr cs c)) = sum_list (map snd cs) + 1"
  by (induction cs) auto

lemma counter_incr_keys: "fst ` set (counter_incr cs c) = insert c (fst ` set cs)"
proof (induction cs)
  case Nil
  show ?case by simp
next
  case (Cons a cs)
  obtain c' n where a: "a = (c', n)" by (cases a)
  show ?case
  proof (cases "c' = c")
    case True
    then show ?thesis unfolding a by simp
  next
    case False
    then have "fst ` set (counter_incr (a # cs) c) = insert c' (insert c (fst ` set cs))"
      unfolding a by (simp add: Cons.IH)
    then show ?thesis unfolding a by auto
  qed
qed

lemma counter_incr_distinct:
  "distinct (map fst cs) \<Longrightarrow> distinct (map fst (counter_incr cs c))"
proof (induction cs)
  case Nil
  show ?case by simp
next
  case (Cons a cs)
  obtain c' n where a: "a = (c', n)" by (cases a)
  from Cons show ?case
    unfolding a by (auto simp: counter_incr_keys)
qed

lemma counter_incr_count:
  "count_of (counter_incr cs c) c' = count_of cs c' + (if c' = c then 1 else 0)"
  by (induction cs) (auto simp: count_of_def)

lemma count_loop_sum:
  "sum_list (map snd (count_loop ovs cs)) = sum_list (map snd cs) + 2 * length ovs"
  by (induction ovs arbitrary: cs) (simp_all add: counter_incr_sum)

lemma count_loop_keys:
  "fst ` set (count_loop ovs cs) = fst ` set cs \<union> ov_char_a ` set ovs \<union> ov_char_b ` set ovs"
proof (induction ovs arbitrary: cs)
  case Nil
  show ?case by simp
next
  case (Cons ov ovs)
  have "fst ` set (count_loop (ov # ovs) cs)
      = insert (ov_char_b ov) (insert (ov_char_a ov) (fst ` set cs))
        \<union> ov_char_a ` set ovs \<union> ov_char_b ` set ovs"
    by (simp add: Cons.IH counter_incr_keys)
  then show ?case by auto
qed

lemma count_loop_distinct:
  "distinct (map fst cs) \<Longrightarrow> distinct (map fst (count_loop ovs cs))"
  by (induction ovs arbitrary: cs) (simp_all add: counter_incr_distinct)

lemma count_loop_count:
  "count_of (count_loop ovs cs) c =
     count_of cs c + count_list (map ov_char_a ovs) c + count_list (map ov_char_b ovs) c"
  by (induction ovs arbitrary: cs) (simp_all add: counter_incr_count)

lemma count_loop_Nil_iff: "count_loop ovs [] = [] \<longleftrightarrow> ovs = []"
proof
  assume e: "count_loop ovs [] = []"
  have "sum_list (map snd (count_loop ovs [])) = 2 * length ovs"
    by (simp add: count_loop_sum)
  with e show "ovs = []" by simp
qed simp

lemma count_of_member:
  "distinct (map fst cs) \<Longrightarrow> (c, n) \<in> set cs \<Longrightarrow> count_of cs c = n"
  by (simp add: count_of_def)

lemma stats_loop_map:
  "0 < total_occurrences \<Longrightarrow>
     stats_loop cs total_occurrences = Inr (map (stat_of total_occurrences) cs)"
  by (induction cs) (auto simp: py_div_def stat_of_def)

lemma insort_key_sum:
  "sum_list (map g (insort_key f x xs)) = g x + sum_list (map g xs)"
  for g :: "'a \<Rightarrow> nat"
  by (induction xs) auto

lemma insort_key_distinct_map:
  "distinct (map g (insort_key f x xs)) \<longleftrightarrow> g x \<notin> g ` set xs \<and> distinct (map g xs)"
  by (induction xs) (auto simp: set_insort_key)

lemma most_common_set: "set (most_common cs) = set cs"
  by (simp add: most_common_def)

lemma most_common_sum: "sum_list (map snd (most_common cs)) = sum_list (map snd cs)"
  unfolding most_common_def
  by (induction cs) (simp_all add: sort_key_simps insort_key_sum)

lemma most_common_distinct:
  "distinct (map fst cs) \<Longrightarrow> distinct (map fst (most_common cs))"
  unfolding most_common_def
  by (induction cs) (simp_all add: sort_key_simps insort_key_distinct_map)

lemma most_common_length: "length (most_common cs) = length cs"
  by (simp add: most_common_def)

lemma most_common_sorted: "sorted_wrt (\<ge>) (map snd (most_common cs))"
proof -
  have "sorted (map (\<lambda>(c, n). - int n) (most_common cs))"
    unfolding most_common_def by (rule sorted_sort_key)
  then have "sorted_wrt (\<lambda>x y. (case x of (c, n) \<Rightarrow> - int n) \<le> (case y of (c, n) \<Rightarrow> - int n))
      (most_common cs)"
    by (simp add: sorted_wrt_map)
  then have "sorted_wrt (\<lambda>x y. snd y \<le> snd x) (most_common cs)"
    by (rule sorted_wrt_mono_rel [rotated]) auto
  then show ?thesis by (simp add: sorted_wrt_map)
qed

lemma calculate_character_statistics_closed:
  "calculate_character_statistics ovs =
     Inr (if ovs = []
          then \<lparr>character_stats = [], total_unique_chars = 0,
                total_character_occurrences = None\<rparr>
          else \<lparr>character_stats =
                  map (stat_of (2 * length ovs)) (most_common (count_loop ovs [])),
                total_unique_chars = length (count_loop ovs []),
                total_character_occurrences = Some (2 * length ovs)\<rparr>)"
proof (cases "ovs = []")
  case True
  then show ?thesis by (simp add: calculate_character_statistics_def)
next
  case False
  then have n: "count_loop ovs [] \<noteq> []" by (simp add: count_loop_Nil_iff)
  have t: "sum_list (map snd (count_loop ovs [])) = 2 * length ovs"
    by (simp add: count_loop_sum)
  from False have p: "0 < 2 * length ovs" by simp
  from False n show ?thesis
    by (simp add: calculate_character_statistics_def Let_def t stats_loop_map [OF p])
qed

lemma count_of_Nil: "count_of [] c = 0"
  by (simp add: count_of_def)

lemma stat_of_fields:
  "map overlap_count (map (stat_of t) cs) = map snd cs"
  "map character (map (stat_of t) cs) = map fst cs"
  by (simp_all add: stat_of_def comp_def)

text \<open>
  C8: for every list of overlap records the statistics are returned (the division by the
  total never fails); the counts of the table add up to twice the number of overlaps; the
  table is in descending order of count; it has one entry per character that occurs, and
  the count of an entry is the number of first slots plus the number of second slots that
  hold its character; the percentage of an entry is its count divided by the total number of
  character occurrences, times 100, rounded to two decimals.
\<close>

theorem calculate_character_statistics_table:
  "\<exists>st. calculate_character_statistics ovs = Inr st
     \<and> sum_list (map overlap_count (character_stats st)) = 2 * length ovs
     \<and> sorted_wrt (\<ge>) (map overlap_count (character_stats st))
     \<and> distinct (map character (character_stats st))
     \<and> set (map character (character_stats st)) = ov_char_a ` set ovs \<union> ov_char_b ` set ovs
     \<and> (\<forall>e \<in> set (character_stats st).
           overlap_count e = count_list (map ov_char_a ovs) (character e)
                             + count_list (map ov_char_b ovs) (character e)
           \<and> percentage e =
               py_round (of_nat (overlap_count e) / of_nat (2 * length ovs) * 100) 2)"
proof (cases "ovs = []")
  case True
  then show ?thesis by (simp add: calculate_character_statistics_closed)
next
  case False
  let ?cs = "count_loop ovs []"
  let ?tab = "map (stat_of (2 * length ovs)) (most_common ?cs)"
  from False obtain st where st: "calculate_character_statistics ovs = Inr st"
    and tab: "character_stats st = ?tab"
    by (simp add: calculate_character_statistics_closed)
  have d: "distinct (map fst ?cs)" by (simp add: count_loop_distinct)
  have 1: "sum_list (map overlap_count (character_stats st)) = 2 * length ovs"
    unfolding tab by (simp only: stat_of_fields most_common_sum count_loop_sum) simp
  have 2: "sorted_wrt (\<ge>) (map overlap_count (character_stats st))"
    unfolding tab by (simp only: stat_of_fields most_common_sorted)
  have 3: "distinct (map character (character_stats st))"
    unfolding tab by (simp only: stat_of_fields most_common_distinct [OF d])
  have 4: "set (map character (character_stats st))
      = ov_char_a ` set ovs \<union> ov_char_b ` set ovs"
    unfolding tab by (simp only: stat_of_fields set_map most_common_set count_loop_keys) simp
  have 5: "\<forall>e \<in> set (character_stats st).
           overlap_count e = count_list (map ov_char_a ovs) (character e)
                             + count_list (map ov_char_b ovs) (character e)
           \<and> percentage e =
               py_round (of_nat (overlap_count e) / of_nat (2 * length ovs) * 100) 2"
  proof
    fix e assume "e \<in> set (character_stats st)"
    then obtain c n where cn: "(c, n) \<in> set ?cs" and e: "e = stat_of (2 * length ovs) (c, n)"
      unfolding tab by (auto simp: most_common_set)
    from count_of_member [OF d cn] have "n = count_of ?cs c" by simp
    also have "\<dots> = count_list (map ov_char_a ovs) c + count_list (map ov_char_b ovs) c"
      by (simp add: count_loop_count count_of_Nil)
    finally have n: "n = count_list (map ov_char_a ovs) c + count_list (map ov_char_b ovs) c" .
    have f: "overlap_count e = n" "character e = c"
      "percentage e = py_round (of_nat n / of_nat (2 * length ovs) * 100) 2"
      unfolding e by (simp_all add: stat_of_def)
    show "overlap_count e = count_list (map ov_char_a ovs) (character e)
                             + count_list (map ov_char_b ovs) (character e)
           \<and> percentage e =
               py_round (of_nat (overlap_count e) / of_nat (2 * length ovs) * 100) 2"
      unfolding f using n by (intro conjI refl)
  qed
  from st 1 2 3 4 5 show ?thesis by blast
qed

lemma example_statistics:
  "calculate_character_statistics
     [\<lparr>ov_page = 1, ov_a = (0, 0, 10, 10), ov_b = (5, 5, 10, 10), ov_char_a = [65],
        ov_char_b = [66], ov_percentage_of_union = 1429 / 100\<rparr>,
      \<lparr>ov_page = 1, ov_a = (5, 5, 10, 10), ov_b = (6, 6, 10, 10), ov_char_a = [66],
        ov_char_b = [66], ov_percentage_of_union = 6807 / 100\<rparr>] =
   Inr \<lparr>character_stats =
          [\<lparr>character = [66], overlap_count = 3, percentage = 75\<rparr>,
           \<lparr>character = [65], overlap_count = 1, percentage = 25\<rparr>],
        total_unique_chars = 2, total_character_occurrences = Some 4\<rparr>"
  by code_simp

theorem calculate_character_statistics_table_witness:
  "calculate_character_statistics
     [\<lparr>ov_page = 1, ov_a = (0, 0, 10, 10), ov_b = (5, 5, 10, 10), ov_char_a = [65],
        ov_char_b = [66], ov_percentage_of_union = 1429 / 100\<rparr>,
      \<lparr>ov_page = 1, ov_a = (5, 5, 10, 10), ov_b = (6, 6, 10, 10), ov_char_a = [66],
        ov_char_b = [66], ov_percentage_of_union = 6807 / 100\<rparr>] =
   Inr \<lparr>character_stats =
          [\<lparr>character = [66], overlap_count = 3, percentage = 75\<rparr>,
           \<lparr>character = [65], overlap_count = 1, percentage = 25\<rparr>],
        total_unique_chars = 2, total_character_occurrences = Some 4\<rparr>
   \<and> sum_list [3, 1 :: nat] = 2 * 2
   \<and> (75 :: rat) = py_round (of_nat 3 / of_nat (2 * 2) * 100) 2"
proof -
  let ?ovs = "[\<lparr>ov_page = 1, ov_a = (0, 0, 10, 10), ov_b = (5, 5, 10, 10), ov_char_a = [65],
        ov_char_b = [66], ov_percentage_of_union = 1429 / 100\<rparr>,
      \<lparr>ov_page = 1, ov_a = (5, 5, 10, 10), ov_b = (6, 6, 10, 10), ov_char_a = [66],
        ov_char_b = [66], ov_percentage_of_union = 6807 / 100\<rparr>]"
  from calculate_character_statistics_table [of ?ovs] obtain st where
    st: "calculate_character_statistics ?ovs = Inr st"
    and s: "sum_list (map overlap_count (character_stats st)) = 2 * length ?ovs"
    and p: "\<forall>e \<in> set (character_stats st).
           overlap_count e = count_list (map ov_char_a ?ovs) (character e)
                             + count_list (map ov_char_b ?ovs) (character e)
           \<and> percentage e =
               py_round (of_nat (overlap_count e) / of_nat (2 * length ?ovs) * 100) 2"
    by blast
  from st example_statistics have e: "st = \<lparr>character_stats =
          [\<lparr>character = [66], overlap_count = 3, percentage = 75\<rparr>,
           \<lparr>character = [65], overlap_count = 1, percentage = 25\<rparr>],
        total_unique_chars = 2, total_character_occurrences = Some 4\<rparr>" by simp
  from s have 1: "sum_list [3, 1 :: nat] = 2 * 2" unfolding e by simp
  from p have 2: "(75 :: rat) = py_round (of_nat 3 / of_nat (2 * 2) * 100) 2"
    unfolding e by simp
  from example_statistics 1 2 show ?thesis by (intro conjI)
qed

end
